theory Spec2Isabelle
  imports Complex_Main "HOL-Library.Word" "HOL-Library.Log_Nat"
begin

section \<open>Strings of the host language\<close>

text \<open>
  A JavaScript string is a finite sequence of 16-bit code units. String literals of the
  source are all ASCII; \<open>ascii\<close> turns an ASCII literal into its code units.
\<close>

type_synonym jsstring = "16 word list"

definition ascii :: "string \<Rightarrow> jsstring" where
  "ascii s = map of_char s"

text \<open>
  \<open>String.prototype.trim\<close> strips the code points WhiteSpace and LineTerminator of the
  language standard from both ends: TAB, LF, VT, FF, CR, SPACE, NBSP, U+1680,
  U+2000..U+200A, U+2028, U+2029, U+202F, U+205F, U+3000 and U+FEFF. All of them are
  single code units.
\<close>

definition is_trim_space :: "16 word \<Rightarrow> bool" where
  "is_trim_space c \<longleftrightarrow>
     (0x09 \<le> c \<and> c \<le> 0x0D) \<or> c = 0x20 \<or> c = 0xA0 \<or> c = 0x1680 \<or>
     (0x2000 \<le> c \<and> c \<le> 0x200A) \<or> c = 0x2028 \<or> c = 0x2029 \<or> c = 0x202F \<or>
     c = 0x205F \<or> c = 0x3000 \<or> c = 0xFEFF"

definition trim :: "jsstring \<Rightarrow> jsstring" where
  "trim s = rev (dropWhile is_trim_space (rev (dropWhile is_trim_space s)))"

text \<open>The class \<open>\d\<close> of a regular expression without the unicode flag: \<open>0\<close> to \<open>9\<close>.\<close>

definition is_digit :: "16 word \<Rightarrow> bool" where
  "is_digit c \<longleftrightarrow> 0x30 \<le> c \<and> c \<le> 0x39"

text \<open>
  \<open>/^\d{4}$/.test(s)\<close>: without the multiline flag the anchors are the two ends of the
  string, so the whole string is four digits.
\<close>

definition test_4digits :: "jsstring \<Rightarrow> bool" where
  "test_4digits s \<longleftrightarrow> length s = 4 \<and> list_all is_digit s"


section \<open>validateSearchInput\<close>

record validation =
  ok :: bool
  message :: jsstring

text \<open>
  An argument is \<open>None\<close> when the caller passes \<open>undefined\<close> or \<open>null\<close>. A string
  is falsy exactly when it is empty, so \<open>!title\<close> is \<open>title = None \<or> title = Some []\<close>.
  The conditions are evaluated left to right, as \<open>||\<close> and \<open>&&\<close> do, so \<open>trim\<close> is
  only ever applied to a string.
\<close>

definition validateSearchInput :: "jsstring option \<Rightarrow> jsstring option \<Rightarrow> validation" where
  "validateSearchInput title year =
     (if (case title of None \<Rightarrow> True | Some t \<Rightarrow> t = [] \<or> trim t = [])
      then \<lparr>ok = False, message = ascii ''Title is required.''\<rparr>
      else if (case year of None \<Rightarrow> False
               | Some y \<Rightarrow> y \<noteq> [] \<and> trim y \<noteq> [] \<and> \<not> test_4digits (trim y))
      then \<lparr>ok = False, message = ascii ''Year must be 4 digits (or leave blank).''\<rparr>
      else \<lparr>ok = True, message = []\<rparr>)"


section \<open>runCountdown\<close>

text \<open>
  The two callbacks are observed through the trace of their invocations, each stamped
  with the number of whole seconds elapsed since \<open>runCountdown\<close> was called. The interval
  timer of the host fires its callback once per elapsed second until it is cleared.
\<close>

datatype callback = Tick int | Done

record countdown =
  remaining :: int
  interval_set :: bool
  clock :: nat
  calls :: "(nat \<times> callback) list"

definition runCountdown :: "int \<Rightarrow> countdown" where
  "runCountdown seconds =
     \<lparr>remaining = seconds, interval_set = True, clock = 0, calls = [(0, Tick seconds)]\<rparr>"

text \<open>The function handed to \<open>setInterval\<close>, run at time \<open>clock c\<close>.\<close>

definition interval_callback :: "countdown \<Rightarrow> countdown" where
  "interval_callback c =
     (let r = remaining c - 1 in
      if r \<le> 0
      then c\<lparr>remaining := r, interval_set := False, calls := calls c @ [(clock c, Done)]\<rparr>
      else c\<lparr>remaining := r, calls := calls c @ [(clock c, Tick r)]\<rparr>)"

text \<open>One second passes: the timer fires if it has not been cleared.\<close>

definition one_second :: "countdown \<Rightarrow> countdown" where
  "one_second c =
     (let c' = c\<lparr>clock := clock c + 1\<rparr> in
      if interval_set c' then interval_callback c' else c')"

definition after_seconds :: "nat \<Rightarrow> countdown \<Rightarrow> countdown" where
  "after_seconds k c = (one_second ^^ k) c"


section \<open>Values\<close>

text \<open>
  The values the watchlist handles are those of JSON texts, plus \<open>undefined\<close>: they are
  finite trees. An object is the list of its own properties in the order in which the
  host enumerates them. Prototype chains and object identity are not part of the model.
  A Number is represented by the decimal text that the host prints for it (\<open>0\<close>, \<open>-1.5\<close>,
  \<open>1e+21\<close>, \<open>NaN\<close>, \<open>Infinity\<close>, \<open>-Infinity\<close>), which identifies it up to the sign of zero.
\<close>

datatype jsval =
    JUndefined
  | JNull
  | JBool bool
  | JNum jsstring
  | JStr jsstring
  | JArr "jsval list"
  | JObj "(jsstring \<times> jsval) list"

type_synonym props = "(jsstring \<times> jsval) list"

datatype js_error = SyntaxError | TypeError

datatype 'a completion = Return 'a | Throw js_error

text \<open>Reading the own property \<open>name\<close> of an object; a missing property reads as \<open>undefined\<close>.\<close>

definition own_prop :: "props \<Rightarrow> jsstring \<Rightarrow> jsval" where
  "own_prop ps name = (case map_of ps name of None \<Rightarrow> JUndefined | Some v \<Rightarrow> v)"

text \<open>
  The member expression \<open>v.name\<close>, for a name that no built-in prototype defines (as
  \<open>imdbID\<close> and \<open>watched\<close>): it throws a TypeError on \<open>undefined\<close> and \<open>null\<close>, reads the
  property of an object, and is \<open>undefined\<close> on every other value.
\<close>

fun get_prop :: "jsval \<Rightarrow> jsstring \<Rightarrow> js_error + jsval" where
  "get_prop JUndefined name = Inl TypeError"
| "get_prop JNull name = Inl TypeError"
| "get_prop (JObj ps) name = Inr (own_prop ps name)"
| "get_prop v name = Inr JUndefined"

text \<open>
  Strict equality \<open>===\<close>. Two primitives are equal when they are the same value, except
  that \<open>NaN\<close> equals nothing. An array or an object equals only itself; since identity is
  not modelled, the values of the model stand for separately created objects, which are
  never equal.
\<close>

fun strict_equal :: "jsval \<Rightarrow> jsval \<Rightarrow> bool" where
  "strict_equal JUndefined JUndefined = True"
| "strict_equal JNull JNull = True"
| "strict_equal (JBool a) (JBool b) = (a = b)"
| "strict_equal (JNum a) (JNum b) = (a = b \<and> a \<noteq> ascii ''NaN'')"
| "strict_equal (JStr a) (JStr b) = (a = b)"
| "strict_equal a b = False"

text \<open>The conversion ToBoolean, applied by \<open>!\<close>.\<close>

fun ToBoolean :: "jsval \<Rightarrow> bool" where
  "ToBoolean JUndefined = False"
| "ToBoolean JNull = False"
| "ToBoolean (JBool b) = b"
| "ToBoolean (JNum t) = (t \<noteq> ascii ''0'' \<and> t \<noteq> ascii ''NaN'')"
| "ToBoolean (JStr s) = (s \<noteq> [])"
| "ToBoolean (JArr xs) = True"
| "ToBoolean (JObj ps) = True"

text \<open>
  \<open>Array.prototype.some\<close> and \<open>Array.prototype.filter\<close> with a callback that may throw:
  the elements are visited from the left, \<open>some\<close> stops at the first hit, and an exception
  of the callback ends the iteration.
\<close>

fun Array_some :: "(jsval \<Rightarrow> js_error + bool) \<Rightarrow> jsval list \<Rightarrow> js_error + bool" where
  "Array_some f [] = Inr False"
| "Array_some f (x # xs) =
     (case f x of
        Inl e \<Rightarrow> Inl e
      | Inr b \<Rightarrow> if b then Inr True else Array_some f xs)"

fun Array_filter :: "(jsval \<Rightarrow> js_error + bool) \<Rightarrow> jsval list \<Rightarrow> js_error + jsval list" where
  "Array_filter f [] = Inr []"
| "Array_filter f (x # xs) =
     (case f x of
        Inl e \<Rightarrow> Inl e
      | Inr b \<Rightarrow>
          (case Array_filter f xs of
             Inl e \<Rightarrow> Inl e
           | Inr ys \<Rightarrow> Inr (if b then x # ys else ys)))"

subsection \<open>Property order\<close>

text \<open>
  The host enumerates the own properties of an object with the array indices first, in
  ascending numeric order, and the other names after them in the order of their
  creation. An array index is the canonical decimal form of an integer from 0 to
  \<open>2^32 - 2\<close>.
\<close>

definition dec_value :: "jsstring \<Rightarrow> int" where
  "dec_value k = foldl (\<lambda>n c. 10 * n + uint (c - 0x30)) 0 k"

definition array_index :: "jsstring \<Rightarrow> int option" where
  "array_index k =
     (if k \<noteq> [] \<and> list_all is_digit k \<and> (hd k \<noteq> 0x30 \<or> k = [0x30]) \<and>
         dec_value k \<le> 4294967294
      then Some (dec_value k) else None)"

text \<open>Creating a property that the object does not have yet.\<close>

fun put_new :: "jsstring \<Rightarrow> jsval \<Rightarrow> props \<Rightarrow> props" where
  "put_new k v [] = [(k, v)]"
| "put_new k v (p # ps) =
     (case array_index k of
        None \<Rightarrow> p # put_new k v ps
      | Some i \<Rightarrow>
          (case array_index (fst p) of
             None \<Rightarrow> (k, v) # p # ps
           | Some j \<Rightarrow> if j < i then p # put_new k v ps else (k, v) # p # ps))"

text \<open>
  Defining or assigning a data property: an existing property keeps its place and takes
  the new value, a new one is created.
\<close>

definition obj_put :: "jsstring \<Rightarrow> jsval \<Rightarrow> props \<Rightarrow> props" where
  "obj_put k v ps =
     (if k \<in> fst ` set ps
      then map (\<lambda>p. if fst p = k then (k, v) else p) ps
      else put_new k v ps)"


section \<open>JSON.stringify\<close>

text \<open>
  \<open>UnicodeEscape\<close>: a backslash, \<open>u\<close> and four lowercase hexadecimal digits.
\<close>

definition hex_digit :: "nat \<Rightarrow> 16 word" where
  "hex_digit n = (if n < 10 then 0x30 + of_nat n else 0x61 + of_nat (n - 10))"

definition unicode_escape :: "16 word \<Rightarrow> jsstring" where
  "unicode_escape c =
     (let n = unat c in
      [0x5C, 0x75, hex_digit (n div 4096), hex_digit (n div 256 mod 16),
       hex_digit (n div 16 mod 16), hex_digit (n mod 16)])"

definition is_high_surrogate :: "16 word \<Rightarrow> bool" where
  "is_high_surrogate c \<longleftrightarrow> 0xD800 \<le> c \<and> c \<le> 0xDBFF"

definition is_low_surrogate :: "16 word \<Rightarrow> bool" where
  "is_low_surrogate c \<longleftrightarrow> 0xDC00 \<le> c \<and> c \<le> 0xDFFF"

text \<open>
  \<open>QuoteJSONString\<close> walks the code points of the string: backspace, tab, line feed, form
  feed, carriage return, the double quote and the backslash have two-character escapes;
  the other code points below U+0020 and every surrogate that is not half of a pair are
  written as a \<open>UnicodeEscape\<close>; everything else is copied, a surrogate pair as its two
  code units.
\<close>

fun quote_chars :: "jsstring \<Rightarrow> jsstring" where
  "quote_chars [] = []"
| "quote_chars (c # cs) =
     (if c = 0x08 then [0x5C, 0x62] @ quote_chars cs
      else if c = 0x09 then [0x5C, 0x74] @ quote_chars cs
      else if c = 0x0A then [0x5C, 0x6E] @ quote_chars cs
      else if c = 0x0C then [0x5C, 0x66] @ quote_chars cs
      else if c = 0x0D then [0x5C, 0x72] @ quote_chars cs
      else if c = 0x22 then [0x5C, 0x22] @ quote_chars cs
      else if c = 0x5C then [0x5C, 0x5C] @ quote_chars cs
      else if c < 0x20 then unicode_escape c @ quote_chars cs
      else if is_high_surrogate c then
        (case cs of
           [] \<Rightarrow> unicode_escape c
         | d # ds \<Rightarrow>
             if is_low_surrogate d then c # d # quote_chars ds
             else unicode_escape c @ quote_chars cs)
      else if is_low_surrogate c then unicode_escape c @ quote_chars cs
      else c # quote_chars cs)"

definition QuoteJSONString :: "jsstring \<Rightarrow> jsstring" where
  "QuoteJSONString s = 0x22 # quote_chars s @ [0x22]"

text \<open>The elements of a list, with a separator between each two.\<close>

fun join_with :: "'a \<Rightarrow> 'a list list \<Rightarrow> 'a list" where
  "join_with sep [] = []"
| "join_with sep [x] = x"
| "join_with sep (x # y # ys) = x @ sep # join_with sep (y # ys)"

text \<open>
  \<open>SerializeJSONProperty\<close> without replacer and without indentation. \<open>None\<close> is the
  result \<open>undefined\<close>: an \<open>undefined\<close> element of an array is written as \<open>null\<close>, a
  property whose value is \<open>undefined\<close> is left out. A Number that is not finite is
  written as \<open>null\<close>.
\<close>

fun SerializeJSONProperty :: "jsval \<Rightarrow> jsstring option" where
  "SerializeJSONProperty JUndefined = None"
| "SerializeJSONProperty JNull = Some (ascii ''null'')"
| "SerializeJSONProperty (JBool b) = Some (if b then ascii ''true'' else ascii ''false'')"
| "SerializeJSONProperty (JNum t) =
     Some (if t = ascii ''NaN'' \<or> t = ascii ''Infinity'' \<or> t = ascii ''-Infinity''
           then ascii ''null'' else t)"
| "SerializeJSONProperty (JStr s) = Some (QuoteJSONString s)"
| "SerializeJSONProperty (JArr xs) =
     Some (0x5B #
           join_with 0x2C (map (\<lambda>x. case SerializeJSONProperty x of
                                   None \<Rightarrow> ascii ''null'' | Some t \<Rightarrow> t) xs)
           @ [0x5D])"
| "SerializeJSONProperty (JObj ps) =
     Some (0x7B #
           join_with 0x2C (concat (map (\<lambda>p. case SerializeJSONProperty (snd p) of
                                           None \<Rightarrow> []
                                         | Some t \<Rightarrow> [QuoteJSONString (fst p) @ 0x3A # t]) ps))
           @ [0x7D])"

definition JSON_stringify :: "jsval \<Rightarrow> jsstring option" where
  "JSON_stringify v = SerializeJSONProperty v"


section \<open>JSON.parse\<close>

text \<open>
  \<open>JSON.parse(text)\<close> without reviver. The text is split into the tokens of the JSON
  grammar and the tokens are parsed by recursive descent. \<open>None\<close> is a SyntaxError.
\<close>

datatype token =
    LBrace | RBrace | LBracket | RBracket | Colon | Comma
  | TString jsstring | TNumber jsstring | TTrue | TFalse | TNull

text \<open>White space between tokens: tab, line feed, carriage return and space.\<close>

definition is_json_space :: "16 word \<Rightarrow> bool" where
  "is_json_space c \<longleftrightarrow> c = 0x09 \<or> c = 0x0A \<or> c = 0x0D \<or> c = 0x20"

text \<open>The digits of a \<open>\uXXXX\<close> escape may be of either case.\<close>

definition hex_value :: "16 word \<Rightarrow> nat option" where
  "hex_value c =
     (if 0x30 \<le> c \<and> c \<le> 0x39 then Some (unat c - 48)
      else if 0x41 \<le> c \<and> c \<le> 0x46 then Some (unat c - 55)
      else if 0x61 \<le> c \<and> c \<le> 0x66 then Some (unat c - 87)
      else None)"

text \<open>
  The two-character escapes: quote, backslash, slash, \<open>b\<close>, \<open>f\<close>, \<open>n\<close>, \<open>r\<close>, \<open>t\<close>.
\<close>

definition simple_escape :: "16 word \<Rightarrow> 16 word option" where
  "simple_escape e =
     (if e = 0x22 then Some 0x22
      else if e = 0x5C then Some 0x5C
      else if e = 0x2F then Some 0x2F
      else if e = 0x62 then Some 0x08
      else if e = 0x66 then Some 0x0C
      else if e = 0x6E then Some 0x0A
      else if e = 0x72 then Some 0x0D
      else if e = 0x74 then Some 0x09
      else None)"

text \<open>One character of a string literal, plain or escaped, and the text after it.\<close>

definition lex_char :: "jsstring \<Rightarrow> (16 word \<times> jsstring) option" where
  "lex_char s =
     (case s of
        [] \<Rightarrow> None
      | c # cs \<Rightarrow>
          if c = 0x5C then
            (case cs of
               [] \<Rightarrow> None
             | e # r \<Rightarrow>
                 if e = 0x75 then
                   (case r of
                      h1 # h2 # h3 # h4 # r' \<Rightarrow>
                        (case (hex_value h1, hex_value h2, hex_value h3, hex_value h4) of
                           (Some a, Some b, Some c', Some d) \<Rightarrow>
                             Some (of_nat (((a * 16 + b) * 16 + c') * 16 + d), r')
                         | _ \<Rightarrow> None)
                    | _ \<Rightarrow> None)
                 else
                   (case simple_escape e of
                      None \<Rightarrow> None
                    | Some x \<Rightarrow> Some (x, r)))
          else if c < 0x20 \<or> c = 0x22 then None
          else Some (c, cs))"

lemma lex_char_length: "lex_char s = Some (x, rest) \<Longrightarrow> length rest < length s"
  by (auto simp: lex_char_def split: list.splits if_splits option.splits)

text \<open>The characters of a string literal after its opening quote, up to the closing one.\<close>

function lex_string :: "jsstring \<Rightarrow> (jsstring \<times> jsstring) option" where
  "lex_string [] = None"
| "lex_string (c # cs) =
     (if c = 0x22 then Some ([], cs)
      else
        (case lex_char (c # cs) of
           None \<Rightarrow> None
         | Some (x, r) \<Rightarrow>
             (case lex_string r of
                None \<Rightarrow> None
              | Some (str, rest) \<Rightarrow> Some (x # str, rest))))"
  by pat_completeness auto
termination
  by (relation "measure length") (auto dest: lex_char_length)

text \<open>
  A number literal is an optional minus sign, an integer part without a leading zero
  (unless it is the single digit 0), an optional fraction and an optional exponent. The
  lexer takes the longest run of characters that can occur in a number and checks it
  against this form: a number that is followed directly by another such character
  cannot be part of any JSON text.
\<close>

definition is_numchar :: "16 word \<Rightarrow> bool" where
  "is_numchar c \<longleftrightarrow> is_digit c \<or> c = 0x2D \<or> c = 0x2B \<or> c = 0x2E \<or> c = 0x65 \<or> c = 0x45"

definition valid_exponent :: "jsstring \<Rightarrow> bool" where
  "valid_exponent t =
     (case t of
        [] \<Rightarrow> True
      | e # r \<Rightarrow>
          (e = 0x65 \<or> e = 0x45) \<and>
          (let ds = (case r of [] \<Rightarrow> [] | s # r' \<Rightarrow> if s = 0x2B \<or> s = 0x2D then r' else r)
           in ds \<noteq> [] \<and> list_all is_digit ds))"

definition valid_fraction :: "jsstring \<Rightarrow> bool" where
  "valid_fraction t =
     (case t of
        [] \<Rightarrow> True
      | d # r \<Rightarrow>
          if d = 0x2E then takeWhile is_digit r \<noteq> [] \<and> valid_exponent (dropWhile is_digit r)
          else valid_exponent t)"

definition valid_number :: "jsstring \<Rightarrow> bool" where
  "valid_number t =
     (let u = (case t of [] \<Rightarrow> [] | s # r \<Rightarrow> if s = 0x2D then r else t);
          int_part = takeWhile is_digit u
      in int_part \<noteq> [] \<and> (hd int_part \<noteq> 0x30 \<or> length int_part = 1) \<and>
         valid_fraction (dropWhile is_digit u))"

definition cons_token :: "token \<Rightarrow> token list option \<Rightarrow> token list option" where
  "cons_token t r = (case r of None \<Rightarrow> None | Some ts \<Rightarrow> Some (t # ts))"

lemma lex_string_length: "lex_string s = Some (x, rest) \<Longrightarrow> length rest < length s"
proof (induction s arbitrary: x rest rule: lex_string.induct)
  case 1
  then show ?case by simp
next
  case (2 c cs)
  show ?case
  proof (cases "c = 0x22")
    case True
    with 2(2) show ?thesis by simp
  next
    case False
    with 2(2) obtain y r str where
      lc: "lex_char (c # cs) = Some (y, r)" and ls: "lex_string r = Some (str, rest)"
      by (auto split: option.splits)
    from 2(1) [OF False lc refl ls] have "length rest < length r" .
    with lex_char_length [OF lc] show ?thesis by simp
  qed
qed

function lex :: "jsstring \<Rightarrow> token list option" where
  "lex [] = Some []"
| "lex (c # cs) =
     (if is_json_space c then lex cs
      else if c = 0x7B then cons_token LBrace (lex cs)
      else if c = 0x7D then cons_token RBrace (lex cs)
      else if c = 0x5B then cons_token LBracket (lex cs)
      else if c = 0x5D then cons_token RBracket (lex cs)
      else if c = 0x3A then cons_token Colon (lex cs)
      else if c = 0x2C then cons_token Comma (lex cs)
      else if c = 0x22 then
        (case lex_string cs of
           None \<Rightarrow> None
         | Some (s, rest) \<Rightarrow> cons_token (TString s) (lex rest))
      else if c = 0x2D \<or> is_digit c then
        (if valid_number (c # takeWhile is_numchar cs)
         then cons_token (TNumber (c # takeWhile is_numchar cs)) (lex (dropWhile is_numchar cs))
         else None)
      else if take 4 (c # cs) = ascii ''true'' then cons_token TTrue (lex (drop 3 cs))
      else if take 5 (c # cs) = ascii ''false'' then cons_token TFalse (lex (drop 4 cs))
      else if take 4 (c # cs) = ascii ''null'' then cons_token TNull (lex (drop 3 cs))
      else None)"
  by pat_completeness auto
termination
proof (relation "measure length", goal_cases)
  case 1 show ?case by simp
next
  case (9 c cs x s rest)
  then show ?case using lex_string_length [of cs s rest] by simp
next
  case (10 c cs)
  show ?case using length_dropWhile_le [of is_numchar cs] by simp
qed simp_all

declare lex.simps(2) [simp del]

text \<open>
  The parser. Its parameter \<open>num\<close> stands for the conversion of the host from a number
  literal to a Number, that is, to the text the host prints for the IEEE double nearest
  to the literal. A member of an object literal defines the property of its name, so a
  repeated name keeps its first place and its last value. The comparison of lengths
  before the continuation of a list is always true; it makes the termination of the
  recursion evident.
\<close>

function parse_value :: "(jsstring \<Rightarrow> jsstring) \<Rightarrow> token list \<Rightarrow> (jsval \<times> token list) option"
  and parse_elements :: "(jsstring \<Rightarrow> jsstring) \<Rightarrow> token list \<Rightarrow> (jsval list \<times> token list) option"
  and parse_members :: "(jsstring \<Rightarrow> jsstring) \<Rightarrow> token list \<Rightarrow> (props \<times> token list) option"
where
  "parse_value num [] = None"
| "parse_value num (t # ts') =
          (case t of
             TNull \<Rightarrow> Some (JNull, ts')
           | TTrue \<Rightarrow> Some (JBool True, ts')
           | TFalse \<Rightarrow> Some (JBool False, ts')
           | TNumber lit \<Rightarrow> Some (JNum (num lit), ts')
           | TString s \<Rightarrow> Some (JStr s, ts')
           | LBracket \<Rightarrow>
               (case ts' of
                  RBracket # rest \<Rightarrow> Some (JArr [], rest)
                | _ \<Rightarrow>
                    (case parse_elements num ts' of
                       None \<Rightarrow> None
                     | Some (xs, rest) \<Rightarrow> Some (JArr xs, rest)))
           | LBrace \<Rightarrow>
               (case ts' of
                  RBrace # rest \<Rightarrow> Some (JObj [], rest)
                | _ \<Rightarrow>
                    (case parse_members num ts' of
                       None \<Rightarrow> None
                     | Some (ps, rest) \<Rightarrow> Some (JObj (fold (\<lambda>p. obj_put (fst p) (snd p)) ps []), rest)))
           | _ \<Rightarrow> None)"
| "parse_elements num ts =
     (case parse_value num ts of
        None \<Rightarrow> None
      | Some (x, rest) \<Rightarrow>
          if length rest < length ts then
            (case rest of
               Comma # rest' \<Rightarrow>
                 (case parse_elements num rest' of
                    None \<Rightarrow> None
                  | Some (xs, r) \<Rightarrow> Some (x # xs, r))
             | RBracket # rest' \<Rightarrow> Some ([x], rest')
             | _ \<Rightarrow> None)
          else None)"
| "parse_members num ts =
     (case ts of
        TString k # Colon # ts' \<Rightarrow>
          (case parse_value num ts' of
             None \<Rightarrow> None
           | Some (v, rest) \<Rightarrow>
               if length rest < length ts' then
                 (case rest of
                    Comma # rest' \<Rightarrow>
                      (case parse_members num rest' of
                         None \<Rightarrow> None
                       | Some (ps, r) \<Rightarrow> Some ((k, v) # ps, r))
                  | RBrace # rest' \<Rightarrow> Some ([(k, v)], rest')
                  | _ \<Rightarrow> None)
               else None)
      | _ \<Rightarrow> None)"
  by pat_completeness auto
termination
  by (relation "measure (\<lambda>x. case x of
        Inl (_, ts) \<Rightarrow> 2 * length ts
      | Inr (Inl (_, ts)) \<Rightarrow> 2 * length ts + 1
      | Inr (Inr (_, ts)) \<Rightarrow> 2 * length ts + 1)") auto

declare parse_elements.simps [simp del] parse_members.simps [simp del]

definition JSON_parse :: "(jsstring \<Rightarrow> jsstring) \<Rightarrow> jsstring \<Rightarrow> js_error + jsval" where
  "JSON_parse num text =
     (case lex text of
        None \<Rightarrow> Inl SyntaxError
      | Some ts \<Rightarrow>
          (case parse_value num ts of
             Some (v, []) \<Rightarrow> Inr v
           | _ \<Rightarrow> Inl SyntaxError))"



section \<open>Products of Numbers\<close>

text \<open>
  A Number of the host language is a binary64 floating-point value; a finite one is a
  real number. The product of two Numbers is their product as real numbers, rounded to
  the nearest binary64 value; of two nearest values the one with the even significand
  is taken. \<open>exponent x\<close> is the binary exponent of a positive \<open>x\<close>, the \<open>e\<close> with
  \<open>2 ^ e \<le> x < 2 ^ (e + 1)\<close>. The binary64 values next to \<open>x\<close> are the multiples of
  \<open>ulp x\<close>: a significand has 53 bits, and the smallest positive value is \<open>2 ^ - 1074\<close>.
  Overflow to infinity is not modelled; the products taken below are less than \<open>2 ^ 32\<close>.
\<close>

definition exponent :: "real \<Rightarrow> int" where
  "exponent x = (if 1 \<le> x then bitlen \<lfloor>x\<rfloor> - 1 else - bitlen (\<lceil>1 / x\<rceil> - 1))"

definition ulp :: "real \<Rightarrow> real" where
  "ulp x = 2 powi (max (exponent \<bar>x\<bar> - 52) (- 1074))"

definition round_half_even :: "real \<Rightarrow> int" where
  "round_half_even q =
     (let f = \<lfloor>q\<rfloor> in
      if q - of_int f < 1 / 2 then f
      else if 1 / 2 < q - of_int f then f + 1
      else if even f then f else f + 1)"

definition round_double :: "real \<Rightarrow> real" where
  "round_double x = (if x = 0 then 0 else of_int (round_half_even (x / ulp x)) * ulp x)"

text \<open>The real numbers that are Numbers.\<close>

definition is_double :: "real \<Rightarrow> bool" where
  "is_double x \<longleftrightarrow> round_double x = x"


section \<open>The Watchlist class\<close>

text \<open>
  The state is the two fields of the \<open>Watchlist\<close> object together with the
  \<open>localStorage\<close> of the page: its contents, and the list of the \<open>setItem\<close> calls made so
  far, oldest first, so that a write is visible even when it stores the value already
  there. A method takes the state and returns its completion and the state it leaves;
  when it throws, the state is the one reached at the throw.
\<close>

record state =
  storageKey :: jsstring
  items :: jsval
  localStorage :: "jsstring \<rightharpoonup> jsstring"
  setItem_calls :: "(jsstring \<times> jsstring) list"

text \<open>\<open>new Watchlist(storageKey)\<close> on a page whose storage is \<open>ls\<close> with write history \<open>hist\<close>.\<close>

definition new_Watchlist ::
  "jsstring \<Rightarrow> (jsstring \<rightharpoonup> jsstring) \<Rightarrow> (jsstring \<times> jsstring) list \<Rightarrow> state" where
  "new_Watchlist key ls hist =
     \<lparr>storageKey = key, items = JArr [], localStorage = ls, setItem_calls = hist\<rparr>"

text \<open>
  \<open>localStorage.setItem(key, value)\<close> converts the value to a string, so the result
  \<open>undefined\<close> of \<open>JSON.stringify\<close> is stored as the text \<open>undefined\<close>. Storage quota is
  not modelled: the write always succeeds.
\<close>

definition stored_text :: "jsval \<Rightarrow> jsstring" where
  "stored_text v = (case JSON_stringify v of None \<Rightarrow> ascii ''undefined'' | Some t \<Rightarrow> t)"

text \<open>
  \<open>load()\<close>: \<open>getItem\<close> gives \<open>null\<close> for a key that is not stored; \<open>null\<close> and the
  empty string are falsy. There is no \<open>try\<close> around \<open>JSON.parse\<close>: its exception leaves
  the method before the assignment to \<open>items\<close>.
\<close>

definition load :: "(jsstring \<Rightarrow> jsstring) \<Rightarrow> state \<Rightarrow> unit completion \<times> state" where
  "load num st =
     (case localStorage st (storageKey st) of
        None \<Rightarrow> (Return (), st\<lparr>items := JArr []\<rparr>)
      | Some raw \<Rightarrow>
          if raw = [] then (Return (), st\<lparr>items := JArr []\<rparr>)
          else
            (case JSON_parse num raw of
               Inl e \<Rightarrow> (Throw e, st)
             | Inr v \<Rightarrow> (Return (), st\<lparr>items := v\<rparr>)))"


definition save :: "state \<Rightarrow> unit completion \<times> state" where
  "save st =
     (Return (),
      st\<lparr>localStorage := (localStorage st)(storageKey st \<mapsto> stored_text (items st)),
         setItem_calls := setItem_calls st @ [(storageKey st, stored_text (items st))]\<rparr>)"

text \<open>
  \<open>add(movie)\<close>, for an object \<open>movie\<close> given by its properties. \<open>this.items.some\<close> is
  a TypeError unless \<open>items\<close> is an array. \<open>Object.assign({}, movie)\<close> is a new object
  with the properties of \<open>movie\<close>, enumerated as \<open>movie\<close> enumerates them; it gets
  the property \<open>watched\<close> with value \<open>false\<close> when it has none or an undefined one.
\<close>

definition with_default_watched :: "props \<Rightarrow> props" where
  "with_default_watched movieToAdd =
     (if own_prop movieToAdd (ascii ''watched'') = JUndefined
      then obj_put (ascii ''watched'') (JBool False) movieToAdd
      else movieToAdd)"

definition add :: "props \<Rightarrow> state \<Rightarrow> unit completion \<times> state" where
  "add movie st =
     (case items st of
        JArr ms \<Rightarrow>
          (case Array_some
                  (\<lambda>m. case get_prop m (ascii ''imdbID'') of
                          Inl e \<Rightarrow> Inl e
                        | Inr a \<Rightarrow> Inr (strict_equal a (own_prop movie (ascii ''imdbID'')))) ms of
             Inl e \<Rightarrow> (Throw e, st)
           | Inr exists \<Rightarrow>
               if \<not> exists
               then save (st\<lparr>items := JArr (ms @ [JObj (with_default_watched movie)])\<rparr>)
               else (Return (), st))
      | _ \<Rightarrow> (Throw TypeError, st))"

definition remove :: "jsval \<Rightarrow> state \<Rightarrow> unit completion \<times> state" where
  "remove imdbID st =
     (case items st of
        JArr ms \<Rightarrow>
          (case Array_filter
                  (\<lambda>m. case get_prop m (ascii ''imdbID'') of
                          Inl e \<Rightarrow> Inl e
                        | Inr a \<Rightarrow> Inr (\<not> strict_equal a imdbID)) ms of
             Inl e \<Rightarrow> (Throw e, st)
           | Inr ms' \<Rightarrow> save (st\<lparr>items := JArr ms'\<rparr>))
      | _ \<Rightarrow> (Throw TypeError, st))"

text \<open>
  \<open>randomPick()\<close>, where \<open>r\<close> is the Number that \<open>Math.random()\<close> returns when it is
  called. The length of an array is an integer below \<open>2 ^ 32\<close> and so a Number; the
  product of the two is rounded to a Number, of which \<open>Math.floor\<close> is the floor.
  Reading an array outside its bounds gives \<open>undefined\<close>.
\<close>

definition randomPick :: "real \<Rightarrow> state \<Rightarrow> jsval completion \<times> state" where
  "randomPick r st =
     (case items st of
        JArr ms \<Rightarrow>
          (case Array_filter
                  (\<lambda>m. case get_prop m (ascii ''watched'') of
                          Inl e \<Rightarrow> Inl e
                        | Inr w \<Rightarrow> Inr (\<not> ToBoolean w)) ms of
             Inl e \<Rightarrow> (Throw e, st)
           | Inr unwatched \<Rightarrow>
               if length unwatched = 0 then (Return JNull, st)
               else
                 (let idx = \<lfloor>round_double (r * real (length unwatched))\<rfloor> in
                  (Return (if 0 \<le> idx \<and> nat idx < length unwatched
                           then unwatched ! nat idx else JUndefined), st)))
      | _ \<Rightarrow> (Throw TypeError, st))"

text \<open>
  Calls of \<open>add\<close> one after the other, each from its own event handler: an exception
  ends the handler that made the call, and the next call finds the state as it was left.
\<close>

definition add_all :: "props list \<Rightarrow> state \<Rightarrow> state" where
  "add_all movies st = fold (\<lambda>movie s. snd (add movie s)) movies st"


section \<open>Notions used in the statements\<close>

definition nullish :: "jsval \<Rightarrow> bool" where
  "nullish v \<longleftrightarrow> v = JUndefined \<or> v = JNull"

text \<open>The value of \<open>m.name\<close> when reading it does not throw.\<close>

definition read_prop :: "jsval \<Rightarrow> jsstring \<Rightarrow> jsval" where
  "read_prop m name = (case get_prop m name of Inl e \<Rightarrow> JUndefined | Inr v \<Rightarrow> v)"

text \<open>Two entries share their \<open>imdbID\<close> when \<open>===\<close> holds between the two property values.\<close>

definition same_id :: "jsval \<Rightarrow> jsval \<Rightarrow> bool" where
  "same_id a b \<longleftrightarrow> strict_equal (read_prop a (ascii ''imdbID'')) (read_prop b (ascii ''imdbID''))"

fun no_shared_id :: "jsval list \<Rightarrow> bool" where
  "no_shared_id [] = True"
| "no_shared_id (m # ms) = ((\<forall>x\<in>set ms. \<not> same_id m x) \<and> no_shared_id ms)"

text \<open>
  The first argument of each \<open>imdbID\<close> in a sequence of arguments of \<open>add\<close>: the head is
  kept, the later arguments that share its \<open>imdbID\<close> are dropped, and so on.
\<close>

fun first_of_each_id :: "props list \<Rightarrow> props list" where
  "first_of_each_id [] = []"
| "first_of_each_id (e # es) =
     e # first_of_each_id (filter (\<lambda>x. \<not> same_id (JObj e) (JObj x)) es)"

text \<open>The store holds, at the key of the watchlist, the serialization of the sequence.\<close>

definition consistent :: "state \<Rightarrow> bool" where
  "consistent st \<longleftrightarrow> localStorage st (storageKey st) = Some (stored_text (items st))"


text \<open>
  The values that a JSON text denotes, and that \<open>JSON.parse\<close> therefore produces. They
  contain no \<open>undefined\<close>; a Number in them is printed by the host as a number literal
  that the host reads back as the same Number; an object in them lists its properties
  in the order of enumeration of the host, without a repeated name, the array indices
  first and ascending.
\<close>

definition number_text :: "(jsstring \<Rightarrow> jsstring) \<Rightarrow> jsstring \<Rightarrow> bool" where
  "number_text num t \<longleftrightarrow> valid_number t \<and> num t = t"

fun canonical_keys :: "jsstring list \<Rightarrow> bool" where
  "canonical_keys [] = True"
| "canonical_keys (k # ks) =
     (k \<notin> set ks \<and>
      (case array_index k of
         None \<Rightarrow> \<forall>k'\<in>set ks. array_index k' = None
       | Some i \<Rightarrow> \<forall>k'\<in>set ks. case array_index k' of None \<Rightarrow> True | Some j \<Rightarrow> i < j) \<and>
      canonical_keys ks)"

fun json_value :: "(jsstring \<Rightarrow> jsstring) \<Rightarrow> jsval \<Rightarrow> bool" where
  "json_value num JUndefined = False"
| "json_value num JNull = True"
| "json_value num (JBool b) = True"
| "json_value num (JNum t) = number_text num t"
| "json_value num (JStr s) = True"
| "json_value num (JArr xs) = (\<forall>x\<in>set xs. json_value num x)"
| "json_value num (JObj ps) =
     (canonical_keys (map fst ps) \<and> (\<forall>p\<in>set ps. json_value num (snd p)))"

text \<open>The characters that \<open>QuoteJSONString\<close> writes as a two-character escape.\<close>

definition special :: "16 word \<Rightarrow> bool" where
  "special c \<longleftrightarrow> c = 0x08 \<or> c = 0x09 \<or> c = 0x0A \<or> c = 0x0C \<or> c = 0x0D \<or> c = 0x22 \<or> c = 0x5C"

text \<open>
  The characters with which a JSON value can start: a brace, a bracket, a quote, a minus
  sign, a digit, and the first letters of \<open>true\<close>, \<open>false\<close> and \<open>null\<close>.
\<close>

definition starts_value :: "16 word \<Rightarrow> bool" where
  "starts_value c \<longleftrightarrow>
     c = 0x7B \<or> c = 0x5B \<or> c = 0x22 \<or> c = 0x2D \<or> is_digit c \<or> c = 0x74 \<or> c = 0x66 \<or> c = 0x6E"

text \<open>Putting tokens in front of the result of the lexer.\<close>

definition prepend_tokens :: "token list \<Rightarrow> token list option \<Rightarrow> token list option" where
  "prepend_tokens ts r = (case r of None \<Rightarrow> None | Some us \<Rightarrow> Some (ts @ us))"

text \<open>The tokens of the text that \<open>JSON.stringify\<close> writes for a JSON value.\<close>

fun tokens_of :: "jsval \<Rightarrow> token list" where
  "tokens_of JUndefined = []"
| "tokens_of JNull = [TNull]"
| "tokens_of (JBool b) = [if b then TTrue else TFalse]"
| "tokens_of (JNum t) = [TNumber t]"
| "tokens_of (JStr s) = [TString s]"
| "tokens_of (JArr xs) = LBracket # join_with Comma (map tokens_of xs) @ [RBracket]"
| "tokens_of (JObj ps) =
     LBrace # join_with Comma (map (\<lambda>p. TString (fst p) # Colon # tokens_of (snd p)) ps)
     @ [RBrace]"


section \<open>Example data\<close>

text \<open>
  Search results as the movie database returns them, with short identifiers: \<open>up2\<close> is
  a second result with the \<open>imdbID\<close> of \<open>up\<close>.
\<close>

definition key :: jsstring where
  "key = ascii ''movieWatchlist''"

definition up :: props where
  "up = [(ascii ''Title'', JStr (ascii ''Up'')), (ascii ''Year'', JStr (ascii ''2009'')),
         (ascii ''imdbID'', JStr (ascii ''tt1''))]"

definition up2 :: props where
  "up2 = [(ascii ''Title'', JStr (ascii ''Up!'')), (ascii ''imdbID'', JStr (ascii ''tt1''))]"

definition heat :: props where
  "heat = [(ascii ''Title'', JStr (ascii ''Heat'')), (ascii ''Year'', JStr (ascii ''1995'')),
           (ascii ''imdbID'', JStr (ascii ''tt2''))]"

text \<open>The entries that \<open>add\<close> stores for them, and \<open>heat\<close> once it is marked as watched.\<close>

definition up_entry :: jsval where
  "up_entry = JObj (up @ [(ascii ''watched'', JBool False)])"

definition heat_entry :: jsval where
  "heat_entry = JObj (heat @ [(ascii ''watched'', JBool False)])"

definition heat_watched :: jsval where
  "heat_watched = JObj (heat @ [(ascii ''watched'', JBool True)])"

text \<open>A watchlist with the given entries whose store is in step with them.\<close>

definition watchlist_of :: "jsval list \<Rightarrow> state" where
  "watchlist_of ms =
     \<lparr>storageKey = key, items = JArr ms,
      localStorage = [key \<mapsto> stored_text (JArr ms)],
      setItem_calls = [(key, stored_text (JArr ms))]\<rparr>"


text \<open>A page whose store holds a text that is not JSON, and one whose store is empty.\<close>

definition corrupt_watchlist :: state where
  "corrupt_watchlist =
     \<lparr>storageKey = key, items = JArr [],
      localStorage = [key \<mapsto> ascii ''{oops''], setItem_calls = []\<rparr>"

definition garbled_watchlist :: state where
  "garbled_watchlist =
     \<lparr>storageKey = key, items = JArr [],
      localStorage = [key \<mapsto> ascii ''watchlist''], setItem_calls = []\<rparr>"

definition first_visit :: state where
  "first_visit = new_Watchlist key Map.empty []"

text \<open>A page whose store holds what an earlier visit has saved.\<close>

definition second_visit :: state where
  "second_visit = new_Watchlist key [key \<mapsto> stored_text (JArr [up_entry])] []"

text \<open>
  Five entries that are not watched, and the Number that the literal \<open>0.6\<close> denotes:
  it is the binary64 value nearest to \<open>6 / 10\<close>, and is less than \<open>6 / 10\<close>.
\<close>

definition unwatched_entry :: "string \<Rightarrow> jsval" where
  "unwatched_entry i =
     JObj [(ascii ''imdbID'', JStr (ascii i)), (ascii ''watched'', JBool False)]"

definition five_unwatched :: "jsval list" where
  "five_unwatched = map unwatched_entry [''tt1'', ''tt2'', ''tt3'', ''tt4'', ''tt5'']"

definition six_tenths :: real where
  "six_tenths = 5404319552844595 / 2 ^ 53"


section \<open>Properties of validateSearchInput\<close>

lemma dropWhile_all_iff: "(\<forall>x\<in>set (dropWhile P xs). P x) \<longleftrightarrow> (\<forall>x\<in>set xs. P x)"
  by (induction xs) auto

lemma trim_empty_iff: "trim s = [] \<longleftrightarrow> (\<forall>c\<in>set s. is_trim_space c)"
  by (simp add: trim_def dropWhile_eq_Nil_conv dropWhile_all_iff)

lemma ascii_title_neq_year:
  "ascii ''Title is required.'' \<noteq> ascii ''Year must be 4 digits (or leave blank).''"
  by (simp add: ascii_def)

lemma ascii_title_nonempty: "ascii ''Title is required.'' \<noteq> []"
  by (simp add: ascii_def)

lemma ascii_year_nonempty: "ascii ''Year must be 4 digits (or leave blank).'' \<noteq> []"
  by (simp add: ascii_def)

text \<open>
  Claim C8. For a title string \<open>t\<close> and an optional year \<open>y\<close>, validation fails with
  the title message exactly when \<open>t\<close> consists of white space only (which includes the
  empty title); it fails with the year message exactly when the title is not blank and
  the year is present, not blank, and its trimmed form is not four digits; it passes
  exactly in the remaining case.
\<close>

theorem validateSearchInput_cases:
  fixes t :: jsstring and y :: "jsstring option"
  defines "r \<equiv> validateSearchInput (Some t) y"
  defines "blank_title \<equiv> (\<forall>c\<in>set t. is_trim_space c)"
  defines "bad_year \<equiv> (\<exists>ys. y = Some ys \<and> \<not> (\<forall>c\<in>set ys. is_trim_space c) \<and>
                         \<not> (length (trim ys) = 4 \<and> (\<forall>c\<in>set (trim ys). is_digit c)))"
  shows "(r = \<lparr>ok = False, message = ascii ''Title is required.''\<rparr> \<longleftrightarrow> blank_title) \<and>
         (r = \<lparr>ok = False, message = ascii ''Year must be 4 digits (or leave blank).''\<rparr>
            \<longleftrightarrow> \<not> blank_title \<and> bad_year) \<and>
         (r = \<lparr>ok = True, message = []\<rparr> \<longleftrightarrow> \<not> blank_title \<and> \<not> bad_year)"
proof -
  have blank: "(t = [] \<or> trim t = []) \<longleftrightarrow> blank_title"
    unfolding blank_title_def using trim_empty_iff [of t] by auto
  have bad: "(case y of None \<Rightarrow> False
              | Some ys \<Rightarrow> ys \<noteq> [] \<and> trim ys \<noteq> [] \<and> \<not> test_4digits (trim ys)) \<longleftrightarrow> bad_year"
    unfolding bad_year_def test_4digits_def
    by (cases y) (auto simp: trim_empty_iff list_all_iff)
  have r: "r = (if blank_title then \<lparr>ok = False, message = ascii ''Title is required.''\<rparr>
                else if bad_year
                then \<lparr>ok = False, message = ascii ''Year must be 4 digits (or leave blank).''\<rparr>
                else \<lparr>ok = True, message = []\<rparr>)"
    unfolding r_def validateSearchInput_def using blank bad by simp
  show ?thesis
    unfolding r
    using ascii_title_neq_year ascii_title_nonempty ascii_year_nonempty by auto
qed

theorem validateSearchInput_examples:
  "validateSearchInput (Some (ascii ''  '')) None
     = \<lparr>ok = False, message = ascii ''Title is required.''\<rparr> \<and>
   validateSearchInput (Some (ascii ''Up'')) (Some (ascii ''09''))
     = \<lparr>ok = False, message = ascii ''Year must be 4 digits (or leave blank).''\<rparr> \<and>
   validateSearchInput (Some (ascii ''Up'')) (Some (ascii ''''))
     = \<lparr>ok = True, message = []\<rparr> \<and>
   validateSearchInput (Some (ascii ''Up'')) (Some (ascii ''2009''))
     = \<lparr>ok = True, message = []\<rparr>"
proof -
  have sp: "is_trim_space 0x20" "\<not> is_trim_space 0x55" "\<not> is_trim_space 0x70"
    "\<not> is_trim_space 0x30" "\<not> is_trim_space 0x39" "\<not> is_trim_space 0x32"
    by (simp_all add: is_trim_space_def)
  have dg: "is_digit 0x30" "is_digit 0x39" "is_digit 0x32"
    by (simp_all add: is_digit_def)
  show ?thesis
    using validateSearchInput_cases [of "ascii ''  ''" None]
      validateSearchInput_cases [of "ascii ''Up''" "Some (ascii ''09'')"]
      validateSearchInput_cases [of "ascii ''Up''" "Some (ascii '''')"]
      validateSearchInput_cases [of "ascii ''Up''" "Some (ascii ''2009'')"]
    by (simp add: ascii_def trim_def sp dg)
qed


section \<open>Properties of runCountdown\<close>

lemma after_seconds_Suc: "after_seconds (Suc k) c = one_second (after_seconds k c)"
  by (simp add: after_seconds_def)

lemma after_seconds_3:
  "after_seconds 3 (runCountdown 3)
     = \<lparr>remaining = 0, interval_set = False, clock = 3, calls = [(0, Tick 3), (1, Tick 2), (2, Tick 1), (3, Done)]\<rparr>"
  by (simp add: after_seconds_def numeral_3_eq_3 one_second_def interval_callback_def
      runCountdown_def Let_def)

lemma after_seconds_cleared:
  "after_seconds (k + 3) (runCountdown 3)
     = \<lparr>remaining = 0, interval_set = False, clock = k + 3, calls = [(0, Tick 3), (1, Tick 2), (2, Tick 1), (3, Done)]\<rparr>"
proof (induction k)
  case 0
  show ?case using after_seconds_3 by simp
next
  case (Suc k)
  have "after_seconds (Suc k + 3) (runCountdown 3)
          = one_second (after_seconds (k + 3) (runCountdown 3))"
    using after_seconds_Suc [of "k + 3"] by simp
  then show ?case
    by (simp add: Suc.IH one_second_def Let_def)
qed

text \<open>
  Claim C9. A countdown started with duration 3 calls \<open>tick(3)\<close> at once, \<open>tick(2)\<close>
  after one second, \<open>tick(1)\<close> after two and \<open>done\<close> after three; at every later time the
  trace is still these four calls, so there is no \<open>tick(0)\<close>, exactly one \<open>done\<close>, and
  nothing after it. After \<open>k\<close> seconds the trace is the first \<open>k + 1\<close> of the four calls.
\<close>

theorem runCountdown_3_trace:
  "calls (after_seconds k (runCountdown 3))
     = take (Suc k) [(0, Tick 3), (1, Tick 2), (2, Tick 1), (3, Done)]"
proof (cases "k < 3")
  case True
  then have "k = 0 \<or> k = 1 \<or> k = 2" by arith
  then show ?thesis
    by (auto simp: after_seconds_def numeral_2_eq_2 one_second_def interval_callback_def
        runCountdown_def Let_def)
next
  case False
  then obtain j where "k = j + 3" using le_Suc_ex [of 3 k] by auto
  then show ?thesis
    using after_seconds_cleared [of j] by simp
qed

theorem runCountdown_3_trace_witness:
  "calls (after_seconds 10 (runCountdown 3)) = [(0, Tick 3), (1, Tick 2), (2, Tick 1), (3, Done)]"
  using runCountdown_3_trace [of 10] by simp


section \<open>Properties of the product of Numbers\<close>

text \<open>The exponent of a positive number is its binary exponent.\<close>

lemma exponent_le:
  assumes "0 < x"
  shows "2 powi (exponent x) \<le> x"
proof (cases "1 \<le> x")
  case True
  define f where "f = \<lfloor>x\<rfloor>"
  have f: "0 < f" "of_int f \<le> x" using True by (simp_all add: f_def)
  have b: "1 \<le> bitlen f" using f(1) bitlen_nonneg [of f] bitlen_eq_zero_iff [of f] by linarith
  have "(2::int) ^ nat (bitlen f - 1) \<le> f" using bitlen_bounds [OF f(1)] by simp
  then have "(of_int ((2::int) ^ nat (bitlen f - 1)) :: real) \<le> of_int f"
    by (simp only: of_int_le_iff)
  then have "(2::real) ^ nat (bitlen f - 1) \<le> of_int f" by simp
  moreover have "(2::real) powi (bitlen f - 1) = 2 ^ nat (bitlen f - 1)"
    using b by (simp add: power_int_def)
  ultimately have "(2::real) powi (bitlen f - 1) \<le> x" using f(2) by linarith
  then show ?thesis using True by (simp add: exponent_def f_def)
next
  case False
  define c where "c = \<lceil>1 / x\<rceil> - 1"
  have y: "1 < 1 / x" using assms False by simp
  then have c: "0 < c" unfolding c_def by linarith
  have le: "1 / x \<le> of_int (c + 1)" unfolding c_def by simp
  have "c < 2 ^ nat (bitlen c)" using bitlen_bounds [OF c] by simp
  then have "c + 1 \<le> 2 ^ nat (bitlen c)" by simp
  then have "(of_int (c + 1) :: real) \<le> of_int (2 ^ nat (bitlen c))"
    by (simp only: of_int_le_iff)
  then have "1 / x \<le> 2 ^ nat (bitlen c)" using le by simp
  then have "1 / 2 ^ nat (bitlen c) \<le> x"
    using assms by (simp add: field_simps)
  moreover have "(2::real) powi (- bitlen c) = 1 / 2 ^ nat (bitlen c)"
    using bitlen_nonneg [of c] by (simp add: power_int_def field_simps)
  ultimately have "(2::real) powi (- bitlen c) \<le> x" by linarith
  then show ?thesis using False by (simp add: exponent_def c_def)
qed

lemma exponent_less:
  assumes "0 < x"
  shows "x < 2 powi (exponent x + 1)"
proof (cases "1 \<le> x")
  case True
  define f where "f = \<lfloor>x\<rfloor>"
  have f: "0 < f" "x < of_int (f + 1)" using True by (simp_all add: f_def)
  have "f < 2 ^ nat (bitlen f)" using bitlen_bounds [OF f(1)] by simp
  then have "f + 1 \<le> 2 ^ nat (bitlen f)" by simp
  then have "(of_int (f + 1) :: real) \<le> of_int (2 ^ nat (bitlen f))"
    by (simp only: of_int_le_iff)
  then have "x < 2 ^ nat (bitlen f)" using f(2) by simp
  moreover have "(2::real) powi (bitlen f) = 2 ^ nat (bitlen f)"
    using bitlen_nonneg [of f] by (simp add: power_int_def)
  ultimately have "x < 2 powi (bitlen f)" by linarith
  then show ?thesis using True by (simp add: exponent_def f_def)
next
  case False
  define c where "c = \<lceil>1 / x\<rceil> - 1"
  have y: "1 < 1 / x" using assms False by simp
  then have c: "0 < c" unfolding c_def by linarith
  have lt: "of_int c < 1 / x" unfolding c_def by linarith
  have b: "1 \<le> bitlen c" using c bitlen_nonneg [of c] bitlen_eq_zero_iff [of c] by linarith
  have "(2::int) ^ nat (bitlen c - 1) \<le> c" using bitlen_bounds [OF c] by simp
  then have "(of_int ((2::int) ^ nat (bitlen c - 1)) :: real) \<le> of_int c"
    by (simp only: of_int_le_iff)
  then have "(2::real) ^ nat (bitlen c - 1) \<le> of_int c" by simp
  then have "2 ^ nat (bitlen c - 1) < 1 / x" using lt by linarith
  then have "x < 1 / 2 ^ nat (bitlen c - 1)"
    using assms by (simp add: field_simps)
  moreover have "(2::real) powi (- bitlen c + 1) = 1 / 2 ^ nat (bitlen c - 1)"
  proof -
    have "- bitlen c + 1 = - int (nat (bitlen c - 1))" using b by simp
    then have "(2::real) powi (- bitlen c + 1) = 2 powi (- int (nat (bitlen c - 1)))" by simp
    also have "\<dots> = 1 / 2 ^ nat (bitlen c - 1)"
      by (simp only: power_int_minus power_int_of_nat inverse_eq_divide)
    finally show ?thesis .
  qed
  ultimately have "x < (2::real) powi (- bitlen c + 1)" by linarith
  then show ?thesis using False by (simp add: exponent_def c_def)
qed

lemma exponent_half:
  assumes "1 / 2 \<le> x" and "x < 1"
  shows "exponent x = - 1"
proof -
  have "1 < 1 / x" "1 / x \<le> 2" using assms by (simp_all add: field_simps)
  then have "\<lceil>1 / x\<rceil> = 2" by (intro ceiling_unique) simp_all
  then show ?thesis using assms(2) by (simp add: exponent_def compute_bitlen)
qed

lemma round_half_even_error: "\<bar>of_int (round_half_even q) - q\<bar> \<le> 1 / 2"
proof -
  have "of_int \<lfloor>q\<rfloor> \<le> q" "q < of_int \<lfloor>q\<rfloor> + 1" by linarith+
  then show ?thesis
    by (auto simp: round_half_even_def Let_def)
qed

lemma round_half_even_of_int: "round_half_even (of_int k) = k"
  by (simp add: round_half_even_def)

lemma round_half_even_ge: "of_int k \<le> q \<Longrightarrow> k \<le> round_half_even q"
proof -
  assume "of_int k \<le> q"
  then have "k \<le> \<lfloor>q\<rfloor>" by (simp add: le_floor_iff)
  moreover have "\<lfloor>q\<rfloor> \<le> round_half_even q" by (simp add: round_half_even_def Let_def)
  ultimately show ?thesis by simp
qed

lemma ulp_pos: "0 < ulp x"
  by (simp add: ulp_def)

lemma round_double_error:
  assumes "0 < x" and "x = of_int k * 2 powi (- 1074)"
  shows "\<bar>round_double x - x\<bar> \<le> x / 2 ^ 53"
proof (cases "- 1074 \<le> exponent x - 52")
  case True
  then have u: "ulp x = 2 powi (exponent x - 52)" using assms(1) by (simp add: ulp_def max_absorb1)
  have "round_double x - x = (of_int (round_half_even (x / ulp x)) - x / ulp x) * ulp x"
    using assms(1) ulp_pos [of x] by (simp add: round_double_def field_simps)
  then have "\<bar>round_double x - x\<bar> = \<bar>of_int (round_half_even (x / ulp x)) - x / ulp x\<bar> * ulp x"
    using ulp_pos [of x] by (simp add: abs_mult)
  also have "\<dots> \<le> 1 / 2 * ulp x"
    using round_half_even_error [of "x / ulp x"] ulp_pos [of x]
    by (intro mult_right_mono) simp_all
  also have "\<dots> = 2 powi (exponent x) / 2 ^ 53"
  proof -
    have "(2::real) powi (exponent x - 52) = 2 powi (exponent x) * 2 powi (- 52)"
      using power_int_add [of "2::real" "exponent x" "- 52"] by simp
    then show ?thesis by (simp add: u power_int_minus)
  qed
  also have "\<dots> \<le> x / 2 ^ 53"
    using exponent_le [OF assms(1)] by (simp add: divide_right_mono)
  finally show ?thesis .
next
  case False
  then have u: "ulp x = 2 powi (- 1074)" using assms(1) by (simp add: ulp_def max_absorb2)
  have "x / ulp x = of_int k" using assms(2) by (simp add: u)
  then have "round_double x = x"
    using assms by (simp add: round_double_def round_half_even_of_int u)
  then show ?thesis using assms(1) by simp
qed

lemma round_double_ge_int:
  assumes "0 < x" and "x < 2 ^ 53" and "of_int i \<le> x"
  shows "of_int i \<le> round_double x"
proof -
  define u where "u = max (exponent x - 52) (- 1074)"
  have "(2::real) powi (exponent x) < 2 powi 53"
    using exponent_le [OF assms(1)] assms(2) by simp
  then have "exponent x < 53" by (intro power_int_le_imp_less_exp [of "2::real"]) simp_all
  then have u0: "u \<le> 0" by (simp add: u_def)
  have ulp: "ulp x = 2 powi u" using assms(1) by (simp add: ulp_def u_def)
  have inv: "1 / ulp x = of_int (2 ^ nat (- u))"
    using u0 by (simp add: ulp power_int_def field_simps)
  have "of_int (i * 2 ^ nat (- u)) = of_int i * (1 / ulp x)" by (simp add: inv)
  also have "\<dots> \<le> x * (1 / ulp x)"
    using assms(3) ulp_pos [of x] by (intro mult_right_mono) simp_all
  finally have "of_int (i * 2 ^ nat (- u)) \<le> x / ulp x" by simp
  then have "i * 2 ^ nat (- u) \<le> round_half_even (x / ulp x)" by (rule round_half_even_ge)
  then have "(of_int (i * 2 ^ nat (- u)) :: real) \<le> of_int (round_half_even (x / ulp x))"
    by (simp only: of_int_le_iff)
  then have "of_int (i * 2 ^ nat (- u)) * ulp x \<le> of_int (round_half_even (x / ulp x)) * ulp x"
    using ulp_pos [of x] by (intro mult_right_mono) simp_all
  moreover have "of_int (i * 2 ^ nat (- u)) * ulp x = of_int i"
  proof -
    have "of_int (2 ^ nat (- u)) * ulp x = 1 / ulp x * ulp x" by (simp only: inv)
    also have "\<dots> = 1" using ulp_pos [of x] by simp
    finally have one: "of_int (2 ^ nat (- u)) * ulp x = (1::real)" .
    have "of_int (i * 2 ^ nat (- u)) * ulp x = of_int i * (of_int (2 ^ nat (- u)) * ulp x)"
      by (simp only: of_int_mult mult.assoc)
    then show ?thesis by (simp only: one mult_1_right)
  qed
  ultimately have "of_int i \<le> of_int (round_half_even (x / ulp x)) * ulp x" by linarith
  then show ?thesis using assms(1) by (simp add: round_double_def)
qed

lemma is_double_grid:
  assumes "0 < r" and "is_double r"
  shows "\<exists>k. r = of_int k * 2 powi (- 1074)"
proof -
  define u where "u = max (exponent r - 52) (- 1074)"
  have ulp: "ulp r = 2 powi u" using assms(1) by (simp add: ulp_def u_def)
  have u: "0 \<le> u + 1074" by (simp add: u_def)
  have "(2::real) powi u = 2 powi (u + 1074) * 2 powi (- 1074)"
    using power_int_add [of "2::real" "u + 1074" "- 1074"] by simp
  also have "(2::real) powi (u + 1074) = of_int (2 ^ nat (u + 1074))"
    using u by (simp add: power_int_def)
  finally have "ulp r = of_int (2 ^ nat (u + 1074)) * 2 powi (- 1074)" by (simp only: ulp)
  moreover have "r = of_int (round_half_even (r / ulp r)) * ulp r"
    using assms by (simp add: is_double_def round_double_def)
  ultimately have "r = of_int (round_half_even (r / ulp r) * 2 ^ nat (u + 1074)) * 2 powi (- 1074)"
    by (simp only: of_int_mult mult.assoc)
  then show ?thesis by blast
qed

lemma unit_double_le:
  assumes "0 \<le> r" and "r < 1" and "is_double r"
  shows "r \<le> 1 - 1 / 2 ^ 53"
proof (cases "1 / 2 \<le> r")
  case False
  then show ?thesis by simp
next
  case True
  then have e: "exponent r = - 1" using assms(2) by (rule exponent_half)
  have pos: "0 < r" using True by simp
  have ulp: "ulp r = 1 / 2 ^ 53" using pos by (simp add: ulp_def e power_int_minus field_simps)
  define k where "k = round_half_even (r / ulp r)"
  have r: "r = of_int k / 2 ^ 53"
    using assms(3) pos by (simp add: is_double_def round_double_def ulp k_def)
  then have "of_int k < (2 ^ 53 :: real)" using assms(2) by (simp add: field_simps)
  then have "of_int k < (of_int (2 ^ 53) :: real)" by simp
  then have "k < 2 ^ 53" by (simp only: of_int_less_iff)
  then have "k \<le> 2 ^ 53 - 1" by simp
  then have "(of_int k :: real) \<le> of_int (2 ^ 53 - 1)" by (simp only: of_int_le_iff)
  then have "of_int k \<le> (2 ^ 53 - 1 :: real)" by simp
  then show ?thesis by (simp add: r field_simps)
qed

text \<open>
  The product of a Number \<open>r\<close> in \<open>[0, 1)\<close> and a length \<open>n\<close>: rounding moves it by at most
  \<open>2 ^ - 53\<close> of itself and not across an integer below it, and \<open>r\<close> is at most
  \<open>1 - 2 ^ - 53\<close>, so the floor of the rounded product is an index below \<open>n\<close>.
\<close>

lemma double_product_facts:
  fixes r :: real and n :: nat
  assumes "0 \<le> r" and "r < 1" and "is_double r" and "0 < n" and "n < 2 ^ 32"
  defines "x \<equiv> r * real n" and "a \<equiv> (1 / 2 ^ 53 :: real)"
  shows "0 \<le> x" and "x \<le> real n * (1 - a)" and "x < 2 ^ 53"
    and "\<bar>round_double x - x\<bar> \<le> x * a"
proof -
  have n: "0 < real n" using assms(4) by simp
  show x0: "0 \<le> x" using assms(1) by (simp add: x_def)
  have "r \<le> 1 - a" using unit_double_le [OF assms(1-3)] by (simp add: a_def)
  then have "r * real n \<le> (1 - a) * real n" using n by (intro mult_right_mono) simp_all
  then show "x \<le> real n * (1 - a)" by (simp add: x_def mult.commute)
  have "x < real n" using assms(2) n by (simp add: x_def)
  moreover have "real n < 2 ^ 32" using assms(5) by (metis of_nat_less_iff of_nat_numeral of_nat_power)
  moreover have "(2::real) ^ 32 < 2 ^ 53" by simp
  ultimately show "x < 2 ^ 53" by linarith
  show "\<bar>round_double x - x\<bar> \<le> x * a"
  proof (cases "x = 0")
    case True
    then show ?thesis by (simp add: round_double_def)
  next
    case False
    then have r: "0 < r" and x: "0 < x" using x0 assms(1) by (auto simp: x_def)
    from is_double_grid [OF r assms(3)] obtain k where "r = of_int k * 2 powi (- 1074)" ..
    then have "x = of_int (k * int n) * 2 powi (- 1074)" by (simp add: x_def)
    from round_double_error [OF x this] show ?thesis by (simp add: a_def)
  qed
qed

lemma double_index:
  fixes r :: real and n :: nat
  assumes "0 \<le> r" and "r < 1" and "is_double r" and "0 < n" and "n < 2 ^ 32"
  shows "0 \<le> round_double (r * real n)"
    and "nat \<lfloor>round_double (r * real n)\<rfloor> < n"
    and "real i \<le> r * real n \<Longrightarrow> r * real n < (real i + 1) * (1 - 1 / 2 ^ 53) \<Longrightarrow>
           nat \<lfloor>round_double (r * real n)\<rfloor> = i"
    and "nat \<lfloor>round_double (r * real n)\<rfloor> = i \<Longrightarrow>
           real i * (1 - 1 / 2 ^ 53) \<le> r * real n \<and> r * real n < real i + 1"
proof -
  define x where "x = r * real n"
  define a where "a = (1 / 2 ^ 53 :: real)"
  define y where "y = round_double x"
  have a: "0 < a" "a < 1" by (simp_all add: a_def)
  note f = double_product_facts [OF assms, folded x_def a_def]
  have up: "y \<le> x * (1 + a)" and lo: "x * (1 - a) \<le> y"
    using f(4) by (simp_all add: y_def algebra_simps abs_le_iff)
  have ge: "of_int j \<le> y" if "of_int j \<le> x" for j
  proof (cases "x = 0")
    case True
    with that show ?thesis by (simp add: y_def round_double_def)
  next
    case False
    then have "0 < x" using f(1) by simp
    from round_double_ge_int [OF this f(3) that] show ?thesis by (simp add: y_def)
  qed
  have y0: "0 \<le> y" using ge [of 0] f(1) by simp
  then show "0 \<le> round_double (r * real n)" by (simp add: y_def x_def)
  have sq: "(1 - a) * (1 + a) < 1" using a by (simp add: algebra_simps)
  have below: "y < c" if "x < c * (1 - a)" "0 < c" for c
  proof -
    have "x * (1 + a) < c * (1 - a) * (1 + a)" using that(1) a by (intro mult_strict_right_mono) simp_all
    also have "\<dots> = c * ((1 - a) * (1 + a))" by simp
    also have "\<dots> < c * 1" using sq that(2) by (intro mult_strict_left_mono) simp_all
    finally show ?thesis using up by simp
  qed
  have "y < real n"
  proof (cases "x = real n * (1 - a)")
    case True
    have "y \<le> real n * ((1 - a) * (1 + a))" using up by (simp add: True mult.assoc)
    also have "\<dots> < real n * 1" using sq assms(4) by (intro mult_strict_left_mono) simp_all
    finally show ?thesis by simp
  next
    case False
    then have "x < real n * (1 - a)" using f(2) by simp
    then show ?thesis using assms(4) by (intro below) simp_all
  qed
  then have "\<lfloor>y\<rfloor> < int n" by (simp add: floor_less_iff)
  moreover have "0 \<le> \<lfloor>y\<rfloor>" using y0 by simp
  ultimately have "nat \<lfloor>y\<rfloor> < n" by linarith
  then show "nat \<lfloor>round_double (r * real n)\<rfloor> < n"
    by (simp add: y_def x_def)
  show "nat \<lfloor>round_double (r * real n)\<rfloor> = i"
    if "real i \<le> r * real n" "r * real n < (real i + 1) * (1 - 1 / 2 ^ 53)"
  proof -
    have "of_int (int i) \<le> y" using that(1) by (intro ge) (simp add: x_def)
    moreover have "y < real i + 1" using that(2) by (intro below) (simp_all add: x_def a_def)
    ultimately have "\<lfloor>y\<rfloor> = int i" by (intro floor_unique) simp_all
    then show ?thesis by (simp add: y_def x_def)
  qed
  show "real i * (1 - 1 / 2 ^ 53) \<le> r * real n \<and> r * real n < real i + 1"
    if "nat \<lfloor>round_double (r * real n)\<rfloor> = i"
  proof -
    have "0 \<le> \<lfloor>y\<rfloor>" using y0 by simp
    moreover have "nat \<lfloor>y\<rfloor> = i" using that by (simp add: y_def x_def)
    ultimately have fl: "\<lfloor>y\<rfloor> = int i" by linarith
    then have yi: "real i \<le> y" "y < real i + 1" by linarith+
    have "x < real i + 1"
    proof (rule ccontr)
      assume "\<not> x < real i + 1"
      then have "of_int (int i + 1) \<le> x" by simp
      then have "of_int (int i + 1) \<le> y" by (rule ge)
      with yi(2) show False by simp
    qed
    moreover have "real i * (1 - a) \<le> x"
    proof (rule ccontr)
      assume "\<not> real i * (1 - a) \<le> x"
      then have lt: "x < real i * (1 - a)" by simp
      then have "0 < real i" using f(1) a
        by (metis less_le_trans mult_pos_pos mult_zero_left not_less of_nat_0_le_iff order_le_less diff_gt_0_iff_gt)
      with lt have "y < real i" by (intro below)
      with yi(1) show False by simp
    qed
    ultimately show ?thesis by (simp add: x_def a_def)
  qed
qed


section \<open>Properties of the Watchlist methods\<close>

lemmas example_defs = key_def up_def up2_def heat_def up_entry_def heat_entry_def
  heat_watched_def watchlist_of_def

lemma get_prop_read: "\<not> nullish m \<Longrightarrow> get_prop m name = Inr (read_prop m name)"
  by (cases m) (simp_all add: nullish_def read_prop_def)

lemma Array_filter_total:
  "\<forall>x\<in>set xs. f x = Inr (g x) \<Longrightarrow> Array_filter f xs = Inr (filter g xs)"
  by (induction xs) simp_all

lemma Array_some_total:
  "\<forall>x\<in>set xs. f x = Inr (g x) \<Longrightarrow> Array_some f xs = Inr (\<exists>x\<in>set xs. g x)"
  by (induction xs) simp_all

lemma Array_some_False:
  "Array_some f xs = Inr False \<Longrightarrow> \<forall>x\<in>set xs. f x = Inr False"
  by (induction xs) (auto split: sum.splits if_splits)

lemma id_test_read:
  "(case get_prop m name of Inl e \<Rightarrow> Inl e | Inr a \<Rightarrow> Inr (P a)) = Inr b
     \<Longrightarrow> b = P (read_prop m name)"
  by (auto simp: read_prop_def split: sum.splits)

lemma snd_save_items: "items (snd (save st)) = items st"
  by (simp add: save_def)

lemma consistent_save: "consistent (snd (save st))"
  by (simp add: save_def consistent_def)

lemma remove_total:
  assumes "items st = JArr ms" and "\<forall>m\<in>set ms. \<not> nullish m"
  shows "remove imdbID st =
           save (st\<lparr>items := JArr (filter (\<lambda>m. \<not> strict_equal (read_prop m (ascii ''imdbID'')) imdbID) ms)\<rparr>)"
proof -
  have "Array_filter
          (\<lambda>m. case get_prop m (ascii ''imdbID'') of
                  Inl e \<Rightarrow> Inl e
                | Inr a \<Rightarrow> Inr (\<not> strict_equal a imdbID)) ms
        = Inr (filter (\<lambda>m. \<not> strict_equal (read_prop m (ascii ''imdbID'')) imdbID) ms)"
    using assms(2) by (intro Array_filter_total) (simp add: get_prop_read)
  then show ?thesis
    using assms(1) by (simp add: remove_def)
qed

lemma read_prop_JObj: "read_prop (JObj ps) name = own_prop ps name"
  by (simp add: read_prop_def)

lemma map_of_put_new_other: "k' \<noteq> k \<Longrightarrow> map_of (put_new k v ps) k' = map_of ps k'"
  by (induction ps) (auto split: option.splits)

lemma map_of_replace_other:
  "k' \<noteq> k \<Longrightarrow> map_of (map (\<lambda>p. if fst p = k then (k, v) else p) ps) k' = map_of ps k'"
  by (induction ps) auto

lemma own_prop_obj_put_other: "k' \<noteq> k \<Longrightarrow> own_prop (obj_put k v ps) k' = own_prop ps k'"
  by (simp add: own_prop_def obj_put_def map_of_put_new_other map_of_replace_other)

lemma imdbID_with_default_watched:
  "own_prop (with_default_watched e) (ascii ''imdbID'') = own_prop e (ascii ''imdbID'')"
proof -
  have "ascii ''imdbID'' \<noteq> ascii ''watched''" by (simp add: ascii_def)
  then show ?thesis by (simp add: with_default_watched_def own_prop_obj_put_other)
qed

lemma same_id_stored:
  "same_id (JObj (with_default_watched e)) x = same_id (JObj e) x"
  "same_id x (JObj (with_default_watched e)) = same_id x (JObj e)"
  by (simp_all add: same_id_def read_prop_JObj imdbID_with_default_watched)

lemma add_total:
  assumes "items st = JArr ms" and "\<forall>m\<in>set ms. \<not> nullish m"
  shows "add movie st =
           (if \<exists>m\<in>set ms. same_id m (JObj movie) then (Return (), st)
            else save (st\<lparr>items := JArr (ms @ [JObj (with_default_watched movie)])\<rparr>))"
proof -
  have "Array_some
          (\<lambda>m. case get_prop m (ascii ''imdbID'') of
                  Inl e \<Rightarrow> Inl e
                | Inr a \<Rightarrow> Inr (strict_equal a (own_prop movie (ascii ''imdbID'')))) ms
        = Inr (\<exists>m\<in>set ms. same_id m (JObj movie))"
    using assms(2)
    by (intro Array_some_total) (simp add: get_prop_read same_id_def read_prop_JObj)
  then show ?thesis using assms(1) by (simp add: add_def)
qed

lemma no_shared_id_snoc:
  "no_shared_id (xs @ [y]) \<longleftrightarrow> no_shared_id xs \<and> (\<forall>x\<in>set xs. \<not> same_id x y)"
  by (induction xs) auto

lemma add_all_Cons: "add_all (e # es) st = add_all es (snd (add e st))"
  by (simp add: add_all_def)

lemma add_all_items:
  assumes "items st = JArr ms" and "\<forall>m\<in>set ms. \<not> nullish m"
  shows "items (add_all es st) =
           JArr (ms @ map (\<lambda>e. JObj (with_default_watched e))
                        (first_of_each_id (filter (\<lambda>e. \<forall>m\<in>set ms. \<not> same_id m (JObj e)) es)))"
  using assms
proof (induction es arbitrary: st ms)
  case Nil
  then show ?case by (simp add: add_all_def)
next
  case (Cons e es)
  show ?case
  proof (cases "\<exists>m\<in>set ms. same_id m (JObj e)")
    case True
    then have "snd (add e st) = st" using add_total [OF Cons.prems] by simp
    moreover have "filter (\<lambda>e. \<forall>m\<in>set ms. \<not> same_id m (JObj e)) (e # es)
                   = filter (\<lambda>e. \<forall>m\<in>set ms. \<not> same_id m (JObj e)) es"
      using True by simp
    ultimately show ?thesis
      using Cons.IH [OF Cons.prems] by (simp only: add_all_Cons)
  next
    case False
    let ?ms' = "ms @ [JObj (with_default_watched e)]"
    let ?st' = "snd (add e st)"
    have st': "items ?st' = JArr ?ms'"
      using False add_total [OF Cons.prems, of e] by (simp add: save_def)
    have nn: "\<forall>m\<in>set ?ms'. \<not> nullish m" using Cons.prems(2) by (simp add: nullish_def)
    have flt: "filter (\<lambda>x. \<forall>m\<in>set ?ms'. \<not> same_id m (JObj x)) es
               = filter (\<lambda>x. \<not> same_id (JObj e) (JObj x))
                   (filter (\<lambda>x. \<forall>m\<in>set ms. \<not> same_id m (JObj x)) es)"
      unfolding filter_filter
      by (rule filter_cong [OF refl]) (auto simp: same_id_stored)
    have "items (add_all es ?st') =
            JArr (?ms' @ map (\<lambda>e. JObj (with_default_watched e))
               (first_of_each_id (filter (\<lambda>x. \<not> same_id (JObj e) (JObj x))
                   (filter (\<lambda>x. \<forall>m\<in>set ms. \<not> same_id m (JObj x)) es))))"
      using Cons.IH [OF st' nn] by (simp only: flt)
    moreover have "filter (\<lambda>e. \<forall>m\<in>set ms. \<not> same_id m (JObj e)) (e # es)
                   = e # filter (\<lambda>e. \<forall>m\<in>set ms. \<not> same_id m (JObj e)) es"
      using False by simp
    ultimately show ?thesis
      by (simp only: add_all_Cons first_of_each_id.simps list.map append.simps append_assoc)
  qed
qed

lemma add_all_no_shared_id:
  assumes "items st = JArr ms" and "\<forall>m\<in>set ms. \<not> nullish m" and "no_shared_id ms"
  shows "\<exists>ms'. items (add_all es st) = JArr ms' \<and> no_shared_id ms'"
  using assms
proof (induction es arbitrary: st ms)
  case Nil
  then show ?case by (simp add: add_all_def)
next
  case (Cons e es)
  show ?case
  proof (cases "\<exists>m\<in>set ms. same_id m (JObj e)")
    case True
    then have "snd (add e st) = st" using add_total [OF Cons.prems(1,2)] by simp
    with Cons.IH [OF Cons.prems] show ?thesis by (simp add: add_all_Cons)
  next
    case False
    let ?ms' = "ms @ [JObj (with_default_watched e)]"
    have st': "items (snd (add e st)) = JArr ?ms'"
      using False add_total [OF Cons.prems(1,2), of e] by (simp add: save_def)
    have nn: "\<forall>m\<in>set ?ms'. \<not> nullish m" using Cons.prems(2) by (simp add: nullish_def)
    have ns: "no_shared_id ?ms'"
      using False Cons.prems(3) by (simp add: no_shared_id_snoc same_id_stored)
    show ?thesis using Cons.IH [OF st' nn ns] by (simp add: add_all_Cons)
  qed
qed


text \<open>
  Claim C2. In a watchlist whose entries are objects, \<open>add\<close> of a movie whose \<open>imdbID\<close>
  an entry already has returns normally and leaves the whole state as it was. Hence a
  sequence of no two entries with the same \<open>imdbID\<close> stays one under any calls of \<open>add\<close>,
  and the entries appended by these calls are, in order, the first argument of each
  \<open>imdbID\<close> that the list did not have.
\<close>

theorem add_deduplicates:
  assumes "items st = JArr ms" and "\<forall>m\<in>set ms. \<not> nullish m"
  shows "((\<exists>m\<in>set ms. same_id m (JObj movie)) \<longrightarrow> add movie st = (Return (), st)) \<and>
         (no_shared_id ms \<longrightarrow> (\<exists>ms'. items (add_all movies st) = JArr ms' \<and> no_shared_id ms')) \<and>
         items (add_all movies st) =
           JArr (ms @ map (\<lambda>e. JObj (with_default_watched e))
                        (first_of_each_id (filter (\<lambda>e. \<forall>m\<in>set ms. \<not> same_id m (JObj e)) movies)))"
  using add_total [OF assms, of movie] add_all_no_shared_id [OF assms, of movies]
    add_all_items [OF assms, of movies]
  by simp

theorem add_deduplicates_witness:
  "add up2 (watchlist_of [up_entry]) = (Return (), watchlist_of [up_entry]) \<and>
   no_shared_id [up_entry] \<and>
   items (add_all [up2, heat, up, heat] (watchlist_of [up_entry])) = JArr [up_entry, heat_entry]"
proof -
  have i: "items (watchlist_of [up_entry]) = JArr [up_entry]" by (simp add: watchlist_of_def)
  have n: "\<forall>m\<in>set [up_entry]. \<not> nullish m" by (simp add: up_entry_def nullish_def)
  have s1: "same_id up_entry (JObj up2)" "same_id up_entry (JObj up)" "\<not> same_id up_entry (JObj heat)"
    "same_id (JObj heat) (JObj heat)"
    by (simp_all add: same_id_def read_prop_JObj own_prop_def example_defs ascii_def)
  have w: "with_default_watched heat = heat @ [(ascii ''watched'', JBool False)]"
    by (simp add: with_default_watched_def own_prop_def obj_put_def array_index_def
        is_digit_def heat_def ascii_def)
  show ?thesis
    using add_deduplicates [OF i n, of up2 "[up2, heat, up, heat]"] s1 w
    by (simp add: heat_entry_def)
qed

text \<open>
  Claim C4, as the code has it. In a watchlist whose entries are objects, for a Number
  \<open>r\<close> in \<open>[0, 1)\<close>: \<open>randomPick\<close> returns \<open>null\<close> exactly when no entry has a falsy
  \<open>watched\<close>; otherwise it returns the unwatched entry at the floor of the product of
  \<open>r\<close> and \<open>n\<close> rounded to a Number, where \<open>n\<close> is the number of unwatched entries, and
  this is an index below \<open>n\<close>. The index is \<open>i\<close> whenever \<open>r * n\<close> is in
  \<open>[i, (i + 1) * (1 - 2 ^ - 53))\<close>, and only when \<open>r * n\<close> is in
  \<open>[i * (1 - 2 ^ - 53), i + 1)\<close>: every unwatched entry is selected on an interval of
  \<open>r\<close> whose length is \<open>1 / n\<close> up to \<open>2 ^ - 53\<close> of its bounds. What is returned is
  \<open>null\<close> or an entry that is not watched. When every \<open>watched\<close> is a boolean, the
  unwatched entries are those with \<open>watched = false\<close>. The length of an array of the
  host is below \<open>2 ^ 32\<close>.
\<close>

theorem randomPick_spec:
  fixes r :: real and ms :: "jsval list" and st :: state
  assumes "items st = JArr ms" and "\<forall>m\<in>set ms. \<not> nullish m" and "length ms < 2 ^ 32"
    and "0 \<le> r" and "r < 1" and "is_double r"
  defines "unwatched \<equiv> filter (\<lambda>m. \<not> ToBoolean (read_prop m (ascii ''watched''))) ms"
  defines "n \<equiv> length unwatched"
  defines "idx \<equiv> nat \<lfloor>round_double (r * real n)\<rfloor>"
  shows "(fst (randomPick r st) = Return JNull \<longleftrightarrow> unwatched = []) \<and>
         (unwatched \<noteq> [] \<longrightarrow>
            idx < n \<and> fst (randomPick r st) = Return (unwatched ! idx)) \<and>
         (\<forall>i<n. (real i \<le> r * real n \<and> r * real n < (real i + 1) * (1 - 1 / 2 ^ 53)
                   \<longrightarrow> idx = i) \<and>
                (idx = i
                   \<longrightarrow> real i * (1 - 1 / 2 ^ 53) \<le> r * real n \<and> r * real n < real i + 1)) \<and>
         (\<forall>m. fst (randomPick r st) = Return m \<longrightarrow>
            m = JNull \<or> (m \<in> set ms \<and> \<not> ToBoolean (read_prop m (ascii ''watched'')))) \<and>
         ((\<forall>m\<in>set ms. \<exists>b. read_prop m (ascii ''watched'') = JBool b) \<longrightarrow>
            unwatched = filter (\<lambda>m. read_prop m (ascii ''watched'') = JBool False) ms)"
proof -
  have flt: "Array_filter
          (\<lambda>m. case get_prop m (ascii ''watched'') of
                  Inl e \<Rightarrow> Inl e
                | Inr w \<Rightarrow> Inr (\<not> ToBoolean w)) ms = Inr unwatched"
    unfolding unwatched_def using assms(2)
    by (intro Array_filter_total) (simp add: get_prop_read)
  have "n \<le> length ms" by (simp add: n_def unwatched_def)
  then have small: "n < 2 ^ 32" using assms(3) by (rule le_less_trans)
  have empty: "unwatched = [] \<Longrightarrow> fst (randomPick r st) = Return JNull"
    using assms(1) flt by (simp add: randomPick_def)
  have pick: "idx < n \<and> fst (randomPick r st) = Return (unwatched ! idx)"
    if ne: "unwatched \<noteq> []"
  proof -
    from ne have pos: "0 < n" by (simp add: n_def)
    have lt: "idx < n"
      unfolding idx_def by (rule double_index(2) [OF assms(4-6) pos small])
    have "0 \<le> round_double (r * real n)"
      by (rule double_index(1) [OF assms(4-6) pos small])
    then have "0 \<le> \<lfloor>round_double (r * real n)\<rfloor>" by simp
    then have "fst (randomPick r st) = Return (unwatched ! idx)"
      using assms(1) flt ne lt by (simp add: randomPick_def n_def idx_def Let_def)
    with lt show ?thesis by simp
  qed
  have elem: "unwatched ! idx \<in> set unwatched" if "unwatched \<noteq> []"
    using pick [OF that] by (simp add: n_def)
  have sub: "x \<in> set unwatched \<Longrightarrow>
               x \<in> set ms \<and> \<not> ToBoolean (read_prop x (ascii ''watched'')) \<and> x \<noteq> JNull" for x
    using assms(2) by (auto simp: unwatched_def nullish_def)
  have c1: "fst (randomPick r st) = Return JNull \<longleftrightarrow> unwatched = []"
    using empty pick elem sub by (cases "unwatched = []") auto
  have c3: "(real i \<le> r * real n \<and> r * real n < (real i + 1) * (1 - 1 / 2 ^ 53)
                   \<longrightarrow> idx = i) \<and>
            (idx = i
                   \<longrightarrow> real i * (1 - 1 / 2 ^ 53) \<le> r * real n \<and> r * real n < real i + 1)"
    if "i < n" for i
  proof -
    from that have pos: "0 < n" by simp
    show ?thesis
      unfolding idx_def
      using double_index(3) [OF assms(4-6) pos small, of i]
        double_index(4) [OF assms(4-6) pos small, of i]
      by blast
  qed
  have c4: "\<forall>m. fst (randomPick r st) = Return m \<longrightarrow>
            m = JNull \<or> (m \<in> set ms \<and> \<not> ToBoolean (read_prop m (ascii ''watched'')))"
    using empty pick elem sub by (cases "unwatched = []") auto
  have c5: "(\<forall>m\<in>set ms. \<exists>b. read_prop m (ascii ''watched'') = JBool b) \<longrightarrow>
            unwatched = filter (\<lambda>m. read_prop m (ascii ''watched'') = JBool False) ms"
    unfolding unwatched_def by (auto intro!: filter_cong)
  show ?thesis using c1 pick c3 c4 c5 by blast
qed

theorem randomPick_witness:
  "is_double (1/2) \<and>
   fst (randomPick (1/2) (watchlist_of [heat_watched, up_entry])) = Return up_entry \<and>
   fst (randomPick (1/2) (watchlist_of [heat_watched])) = Return JNull"
proof -
  have w: "read_prop heat_watched (ascii ''watched'') = JBool True"
    "read_prop up_entry (ascii ''watched'') = JBool False"
    by (simp_all add: read_prop_JObj own_prop_def example_defs ascii_def)
  have a: "items (watchlist_of [heat_watched, up_entry]) = JArr [heat_watched, up_entry]"
    and b: "items (watchlist_of [heat_watched]) = JArr [heat_watched]"
    by (simp_all add: watchlist_of_def)
  have n: "\<forall>m\<in>set [heat_watched, up_entry]. \<not> nullish m" "\<forall>m\<in>set [heat_watched]. \<not> nullish m"
    by (simp_all add: up_entry_def heat_watched_def nullish_def)
  have l: "length [heat_watched, up_entry] < 2 ^ 32" "length [heat_watched] < 2 ^ 32"
    by simp_all
  have r: "(0::real) \<le> 1/2" "(1/2::real) < 1" by simp_all
  have v: "round_double (1/2) = 1/2"
    by (simp add: round_double_def ulp_def exponent_def compute_bitlen round_half_even_def)
  then have d: "is_double (1/2)" by (simp add: is_double_def)
  show ?thesis
    using randomPick_spec [OF a n(1) l(1) r d] randomPick_spec [OF b n(2) l(2) r d] w v d
    by simp
qed

text \<open>
  The claim C4 as the specification states it fails: for the Number \<open>0.6\<close> and five
  unwatched entries the product of real numbers is below \<open>3\<close>, so that its floor is the
  index \<open>2\<close> of the third entry, but the product of Numbers is \<open>3\<close>, and \<open>randomPick\<close>
  returns the fourth entry.
\<close>

theorem randomPick_floor_counterexample:
  "0 \<le> six_tenths \<and> six_tenths < 1 \<and> is_double six_tenths \<and>
   fst (randomPick six_tenths (watchlist_of five_unwatched)) = Return (unwatched_entry ''tt4'') \<and>
   five_unwatched ! nat \<lfloor>six_tenths * real (length five_unwatched)\<rfloor> = unwatched_entry ''tt3'' \<and>
   unwatched_entry ''tt4'' \<noteq> unwatched_entry ''tt3''"
proof -
  have d: "round_double six_tenths = six_tenths"
    by (simp add: six_tenths_def round_double_def ulp_def exponent_def compute_bitlen
        round_half_even_def)
  have p: "round_double (six_tenths * 5) = 3"
    by (simp add: six_tenths_def round_double_def ulp_def exponent_def compute_bitlen
        round_half_even_def)
  have f: "\<lfloor>six_tenths * 5\<rfloor> = 2" by (simp add: six_tenths_def)
  have w: "get_prop (unwatched_entry i) (ascii ''watched'') = Inr (JBool False)" for i
    by (simp add: unwatched_entry_def own_prop_def ascii_def)
  have u: "Array_filter
          (\<lambda>m. case get_prop m (ascii ''watched'') of
                  Inl e \<Rightarrow> Inl e
                | Inr w \<Rightarrow> Inr (\<not> ToBoolean w)) five_unwatched = Inr five_unwatched"
    by (simp add: five_unwatched_def w)
  have l: "length five_unwatched = 5" by (simp add: five_unwatched_def)
  have "fst (randomPick six_tenths (watchlist_of five_unwatched)) = Return (five_unwatched ! 3)"
    by (simp add: randomPick_def watchlist_of_def u l p)
  moreover have "five_unwatched ! 3 = unwatched_entry ''tt4''"
    "five_unwatched ! 2 = unwatched_entry ''tt3''"
    by (simp_all add: five_unwatched_def)
  moreover have "unwatched_entry ''tt4'' \<noteq> unwatched_entry ''tt3''"
    by (simp add: unwatched_entry_def ascii_def)
  moreover have "0 \<le> six_tenths" "six_tenths < 1" by (simp_all add: six_tenths_def)
  ultimately show ?thesis using d f l by (simp add: is_double_def)
qed

text \<open>
  Claim C5. \<open>randomPick\<close> leaves the state as it was: the sequence with all its entries,
  the store and the history of writes.
\<close>

theorem randomPick_frame: "snd (randomPick r st) = st"
  by (simp add: randomPick_def Let_def split: jsval.splits sum.splits)

theorem randomPick_frame_witness:
  "snd (randomPick (1/2) (watchlist_of [up_entry])) = watchlist_of [up_entry]"
  using randomPick_frame [of "1/2" "watchlist_of [up_entry]"] by simp

text \<open>
  Claim C6. In a watchlist whose entries are objects, \<open>remove(id)\<close> keeps exactly the
  entries whose \<open>imdbID\<close> is not \<open>id\<close>, in their order, and writes the serialization of
  the result to the store; when no entry has this \<open>imdbID\<close> the sequence is the same and
  the write is made all the same.
\<close>

theorem remove_filters:
  fixes imdbID :: jsval and ms :: "jsval list" and st :: state
  assumes "items st = JArr ms" and "\<forall>m\<in>set ms. \<not> nullish m"
  defines "kept \<equiv> filter (\<lambda>m. \<not> strict_equal (read_prop m (ascii ''imdbID'')) imdbID) ms"
  shows "remove imdbID st =
           (Return (),
            st\<lparr>items := JArr kept,
               localStorage := (localStorage st)(storageKey st \<mapsto> stored_text (JArr kept)),
               setItem_calls := setItem_calls st @ [(storageKey st, stored_text (JArr kept))]\<rparr>) \<and>
         ((\<forall>m\<in>set ms. \<not> strict_equal (read_prop m (ascii ''imdbID'')) imdbID) \<longrightarrow> kept = ms)"
  using remove_total [OF assms(1,2), of imdbID]
  by (simp add: save_def kept_def)

theorem remove_filters_witness:
  "remove (JStr (ascii ''tt1'')) (watchlist_of [up_entry, heat_entry]) =
     (Return (),
      \<lparr>storageKey = key, items = JArr [heat_entry],
       localStorage = [key \<mapsto> stored_text (JArr [heat_entry])],
       setItem_calls = [(key, stored_text (JArr [up_entry, heat_entry])),
                        (key, stored_text (JArr [heat_entry]))]\<rparr>) \<and>
   remove (JStr (ascii ''tt3'')) (watchlist_of [heat_entry]) =
     (Return (),
      \<lparr>storageKey = key, items = JArr [heat_entry],
       localStorage = [key \<mapsto> stored_text (JArr [heat_entry])],
       setItem_calls = [(key, stored_text (JArr [heat_entry])),
                        (key, stored_text (JArr [heat_entry]))]\<rparr>)"
proof -
  have w: "read_prop heat_entry (ascii ''imdbID'') = JStr (ascii ''tt2'')"
    "read_prop up_entry (ascii ''imdbID'') = JStr (ascii ''tt1'')"
    by (simp_all add: read_prop_JObj own_prop_def example_defs ascii_def)
  have a: "items (watchlist_of [up_entry, heat_entry]) = JArr [up_entry, heat_entry]"
    and b: "items (watchlist_of [heat_entry]) = JArr [heat_entry]"
    by (simp_all add: watchlist_of_def)
  have n: "\<forall>m\<in>set [up_entry, heat_entry]. \<not> nullish m" "\<forall>m\<in>set [heat_entry]. \<not> nullish m"
    by (simp_all add: up_entry_def heat_entry_def nullish_def)
  have ne: "ascii ''tt2'' \<noteq> ascii ''tt1''" "ascii ''tt2'' \<noteq> ascii ''tt3''"
    by (simp_all add: ascii_def)
  show ?thesis
    using remove_filters [OF a n(1), of "JStr (ascii ''tt1'')"]
      remove_filters [OF b n(2), of "JStr (ascii ''tt3'')"] w ne
    by (simp add: watchlist_of_def)
qed

text \<open>
  Claim C7. When the store holds the serialization of the sequence before \<open>add\<close> or
  \<open>remove\<close>, it holds the serialization of the sequence after it, whether the method
  returns or throws.
\<close>

theorem mutation_consistent:
  assumes "consistent st"
  shows "consistent (snd (add movie st)) \<and> consistent (snd (remove imdbID st))"
  using assms consistent_save
  by (simp add: add_def remove_def split: jsval.splits sum.splits)

theorem mutation_consistent_witness:
  "consistent (watchlist_of [up_entry]) \<and>
   consistent (snd (add heat (watchlist_of [up_entry]))) \<and>
   consistent (snd (remove (JStr (ascii ''tt1'')) (watchlist_of [up_entry])))"
proof -
  have c: "consistent (watchlist_of [up_entry])"
    by (simp add: consistent_def watchlist_of_def)
  show ?thesis using mutation_consistent [OF c] c by simp
qed

text \<open>
  Claim C10. \<open>add\<close> of a movie whose \<open>imdbID\<close> an entry already has makes no call of
  \<open>setItem\<close> and leaves the store untouched, whereas \<open>remove\<close> of an \<open>imdbID\<close> that no
  entry has, in a watchlist whose entries are objects, leaves the sequence as it was and
  makes one call of \<open>setItem\<close>, which writes the serialization of that sequence again.
\<close>

theorem add_duplicate_no_write:
  assumes "items st = JArr ms"
    and "\<exists>m\<in>set ms. strict_equal (read_prop m (ascii ''imdbID'')) (own_prop movie (ascii ''imdbID''))"
  shows "setItem_calls (snd (add movie st)) = setItem_calls st \<and>
         localStorage (snd (add movie st)) = localStorage st \<and>
         ((\<forall>m\<in>set ms. \<not> nullish m) \<and>
          (\<forall>m\<in>set ms. \<not> strict_equal (read_prop m (ascii ''imdbID'')) imdbID) \<longrightarrow>
            items (snd (remove imdbID st)) = items st \<and>
            setItem_calls (snd (remove imdbID st))
              = setItem_calls st @ [(storageKey st, stored_text (items st))])"
proof -
  let ?f = "\<lambda>m. case get_prop m (ascii ''imdbID'') of
                  Inl e \<Rightarrow> Inl e
                | Inr a \<Rightarrow> Inr (strict_equal a (own_prop movie (ascii ''imdbID'')))"
  have "Array_some ?f ms \<noteq> Inr False"
  proof
    assume "Array_some ?f ms = Inr False"
    then have "\<forall>m\<in>set ms. ?f m = Inr False" by (rule Array_some_False)
    then have "\<forall>m\<in>set ms. \<not> strict_equal (read_prop m (ascii ''imdbID'')) (own_prop movie (ascii ''imdbID''))"
      using id_test_read by fastforce
    with assms(2) show False by blast
  qed
  then have "snd (add movie st) = st"
    using assms(1) by (auto simp: add_def split: sum.splits)
  moreover have "items (snd (remove imdbID st)) = items st \<and>
            setItem_calls (snd (remove imdbID st))
              = setItem_calls st @ [(storageKey st, stored_text (items st))]"
    if "\<forall>m\<in>set ms. \<not> nullish m"
      and "\<forall>m\<in>set ms. \<not> strict_equal (read_prop m (ascii ''imdbID'')) imdbID"
  proof -
    have "filter (\<lambda>m. \<not> strict_equal (read_prop m (ascii ''imdbID'')) imdbID) ms = ms"
      using that(2) by simp
    then show ?thesis
      using remove_total [OF assms(1) that(1), of imdbID] assms(1) by (simp add: save_def)
  qed
  ultimately show ?thesis by simp
qed

theorem add_duplicate_no_write_witness:
  "setItem_calls (snd (add up2 (watchlist_of [up_entry]))) = [(key, stored_text (JArr [up_entry]))] \<and>
   setItem_calls (snd (remove (JStr (ascii ''tt3'')) (watchlist_of [up_entry])))
     = [(key, stored_text (JArr [up_entry])), (key, stored_text (JArr [up_entry]))]"
proof -
  have i: "items (watchlist_of [up_entry]) = JArr [up_entry]" by (simp add: watchlist_of_def)
  have d: "\<exists>m\<in>set [up_entry].
             strict_equal (read_prop m (ascii ''imdbID'')) (own_prop up2 (ascii ''imdbID''))"
    by (simp add: read_prop_JObj own_prop_def example_defs ascii_def)
  have n: "\<forall>m\<in>set [up_entry]. \<not> nullish m" by (simp add: up_entry_def nullish_def)
  have o: "\<forall>m\<in>set [up_entry]. \<not> strict_equal (read_prop m (ascii ''imdbID'')) (JStr (ascii ''tt3''))"
    by (simp add: read_prop_JObj own_prop_def example_defs ascii_def)
  show ?thesis
    using add_duplicate_no_write [OF i d, of "JStr (ascii ''tt3'')"] n o
    by (simp add: watchlist_of_def)
qed


section \<open>Properties of load\<close>

lemma JSON_parse_error: "JSON_parse num raw = Inl e \<Longrightarrow> e = SyntaxError"
  by (auto simp: JSON_parse_def split: option.splits list.splits prod.splits)

text \<open>A text whose first character is neither white space nor the start of a value.\<close>

lemma lex_not_value:
  assumes "\<not> is_json_space c" and "\<not> starts_value c"
  shows "lex (c # cs) = None \<or>
         (\<exists>t ts. lex (c # cs) = Some (t # ts) \<and> t \<in> {RBrace, RBracket, Colon, Comma})"
proof (cases "c = 0x7D \<or> c = 0x5D \<or> c = 0x3A \<or> c = 0x2C")
  case True
  then have "lex (c # cs) = cons_token RBrace (lex cs) \<or>
             lex (c # cs) = cons_token RBracket (lex cs) \<or>
             lex (c # cs) = cons_token Colon (lex cs) \<or>
             lex (c # cs) = cons_token Comma (lex cs)"
    by (elim disjE) (simp_all add: lex.simps(2) is_json_space_def)
  then show ?thesis
    by (cases "lex cs") (auto simp: cons_token_def)
next
  case False
  have n: "c \<noteq> 0x7B" "c \<noteq> 0x5B" "c \<noteq> 0x22" "\<not> (c = 0x2D \<or> is_digit c)"
    "c \<noteq> 0x74" "c \<noteq> 0x66" "c \<noteq> 0x6E"
    using assms(2) by (simp_all add: starts_value_def)
  have t: "take 4 (c # cs) \<noteq> ascii ''true''" "take 5 (c # cs) \<noteq> ascii ''false''"
    "take 4 (c # cs) \<noteq> ascii ''null''"
    using n(5-7) by (simp_all add: ascii_def)
  have m: "c \<noteq> 0x7D" "c \<noteq> 0x5D" "c \<noteq> 0x3A" "c \<noteq> 0x2C"
    using False by simp_all
  have "lex (c # cs) = None"
    by (simp only: lex.simps(2) assms(1) n m t if_False)
  then show ?thesis by simp
qed

lemma JSON_parse_not_value:
  assumes "\<not> is_json_space c" and "\<not> starts_value c"
  shows "JSON_parse num (c # cs) = Inl SyntaxError"
proof -
  from lex_not_value [OF assms, of cs]
  show ?thesis
  proof
    assume "lex (c # cs) = None"
    then show ?thesis by (simp add: JSON_parse_def)
  next
    assume "\<exists>t ts. lex (c # cs) = Some (t # ts) \<and> t \<in> {RBrace, RBracket, Colon, Comma}"
    then obtain t ts where l: "lex (c # cs) = Some (t # ts)"
      and t: "t \<in> {RBrace, RBracket, Colon, Comma}" by blast
    from t have "parse_value num (t # ts) = None" by auto
    with l show ?thesis by (simp add: JSON_parse_def)
  qed
qed


text \<open>
  Claim C1, as the code has it. \<open>load\<close> makes the sequence empty when the key is not
  stored or holds the empty string. For a stored string that is not empty, \<open>load\<close> does
  what \<open>JSON.parse\<close> does: when \<open>JSON.parse\<close> returns a value, \<open>load\<close> returns and the
  sequence is that value; when \<open>JSON.parse\<close> rejects the string, its exception is a
  SyntaxError, and \<open>load\<close> throws it to its caller and leaves the state, and so the
  sequence, as it was. The second is the case, among others, for every stored string
  whose first character is neither white space nor a character with which a JSON value
  can start.
\<close>

theorem load_outcomes:
  "(localStorage st (storageKey st) = None \<or> localStorage st (storageKey st) = Some []
      \<longrightarrow> load num st = (Return (), st\<lparr>items := JArr []\<rparr>)) \<and>
   (\<forall>raw v. localStorage st (storageKey st) = Some raw \<and> raw \<noteq> [] \<and>
          JSON_parse num raw = Inr v
      \<longrightarrow> load num st = (Return (), st\<lparr>items := v\<rparr>)) \<and>
   (\<forall>raw e. localStorage st (storageKey st) = Some raw \<and> raw \<noteq> [] \<and>
          JSON_parse num raw = Inl e
      \<longrightarrow> e = SyntaxError \<and> load num st = (Throw SyntaxError, st)) \<and>
   (\<forall>c cs. localStorage st (storageKey st) = Some (c # cs) \<and>
           \<not> is_json_space c \<and> \<not> starts_value c
      \<longrightarrow> load num st = (Throw SyntaxError, st))"
proof -
  have absent: "load num st = (Return (), st\<lparr>items := JArr []\<rparr>)"
    if "localStorage st (storageKey st) = None \<or> localStorage st (storageKey st) = Some []"
    using that by (auto simp: load_def)
  have parsed: "load num st = (Return (), st\<lparr>items := v\<rparr>)"
    if "localStorage st (storageKey st) = Some raw" and "raw \<noteq> []"
      and "JSON_parse num raw = Inr v" for raw v
    using that by (simp add: load_def)
  have rejected: "e = SyntaxError \<and> load num st = (Throw SyntaxError, st)"
    if "localStorage st (storageKey st) = Some raw" and "raw \<noteq> []"
      and "JSON_parse num raw = Inl e" for raw e
    using that JSON_parse_error [OF that(3)] by (simp add: load_def)
  have other: "load num st = (Throw SyntaxError, st)"
    if "localStorage st (storageKey st) = Some (c # cs)"
      and "\<not> is_json_space c" and "\<not> starts_value c" for c cs
    using that JSON_parse_not_value [of c num cs] by (simp add: load_def)
  show ?thesis using absent parsed rejected other by blast
qed

theorem load_outcomes_witness:
  "load id first_visit = (Return (), first_visit) \<and>
   JSON_parse id (stored_text (JArr [up_entry])) = Inr (JArr [up_entry]) \<and>
   load id second_visit = (Return (), second_visit\<lparr>items := JArr [up_entry]\<rparr>) \<and>
   localStorage corrupt_watchlist (storageKey corrupt_watchlist) = Some (ascii ''{oops'') \<and>
   JSON_parse id (ascii ''{oops'') = Inl SyntaxError \<and>
   load id corrupt_watchlist = (Throw SyntaxError, corrupt_watchlist) \<and>
   load id garbled_watchlist = (Throw SyntaxError, garbled_watchlist)"
proof -
  have p: "JSON_parse id (ascii ''{oops'') = Inl SyntaxError"
    by (simp add: JSON_parse_def ascii_def lex.simps(2) is_json_space_def is_digit_def
        cons_token_def)
  have s: "localStorage corrupt_watchlist (storageKey corrupt_watchlist) = Some (ascii ''{oops'')"
    by (simp add: corrupt_watchlist_def)
  have ne: "ascii ''{oops'' \<noteq> []" by (simp add: ascii_def)
  have f: "localStorage first_visit (storageKey first_visit) = None"
    "first_visit\<lparr>items := JArr []\<rparr> = first_visit"
    by (simp_all add: first_visit_def new_Watchlist_def)
  have g: "localStorage garbled_watchlist (storageKey garbled_watchlist)
             = Some (0x77 # ascii ''atchlist'')"
    "\<not> is_json_space 0x77" "\<not> starts_value 0x77"
    by (simp_all add: garbled_watchlist_def ascii_def is_json_space_def starts_value_def
        is_digit_def)
  have t: "stored_text (JArr [up_entry]) \<noteq> []" by code_simp
  have q: "JSON_parse id (stored_text (JArr [up_entry])) = Inr (JArr [up_entry])" by code_simp
  have h: "localStorage second_visit (storageKey second_visit)
             = Some (stored_text (JArr [up_entry]))"
    by (simp add: second_visit_def new_Watchlist_def)
  have one: "load id first_visit = (Return (), first_visit)"
    using load_outcomes [of first_visit id] f by simp
  have two: "load id second_visit = (Return (), second_visit\<lparr>items := JArr [up_entry]\<rparr>)"
    using load_outcomes [of second_visit id] h t q by blast
  have three: "load id corrupt_watchlist = (Throw SyntaxError, corrupt_watchlist)"
    using load_outcomes [of corrupt_watchlist id] s ne p by blast
  have four: "load id garbled_watchlist = (Throw SyntaxError, garbled_watchlist)"
    using load_outcomes [of garbled_watchlist id] g by blast
  show ?thesis using one two three four p s q by simp
qed

text \<open>
  The claim C1 as the specification states it fails: with the text \<open>{oops\<close> in the
  store, \<open>load\<close> on a new watchlist does not return; it throws a SyntaxError.
\<close>

theorem load_corrupt_counterexample:
  "load id corrupt_watchlist = (Throw SyntaxError, corrupt_watchlist)"
  by (simp add: load_def corrupt_watchlist_def key_def JSON_parse_def ascii_def
      lex.simps(2) is_json_space_def is_digit_def cons_token_def)



section \<open>What JSON.parse reads back from JSON.stringify\<close>

subsection \<open>Number literals\<close>

lemma list_all_take_drop:
  "list_all P (takeWhile Q xs) \<Longrightarrow> list_all P (dropWhile Q xs) \<Longrightarrow> list_all P xs"
  by (metis list_all_append takeWhile_dropWhile_id)

lemma list_all_numchar_digits: "list_all is_numchar (takeWhile is_digit xs)"
  by (auto simp: list_all_iff is_numchar_def dest: set_takeWhileD)

lemma valid_exponent_numchars: "valid_exponent t \<Longrightarrow> list_all is_numchar t"
  by (auto simp: valid_exponent_def is_numchar_def list_all_iff Let_def
      split: list.splits if_splits)

lemma valid_fraction_numchars: "valid_fraction t \<Longrightarrow> list_all is_numchar t"
proof (cases t)
  case Nil
  then show ?thesis by simp
next
  case (Cons d r)
  assume v: "valid_fraction t"
  show ?thesis
  proof (cases "d = 0x2E")
    case True
    with v Cons have "valid_exponent (dropWhile is_digit r)" by (simp add: valid_fraction_def)
    then have "list_all is_numchar (dropWhile is_digit r)" by (rule valid_exponent_numchars)
    then have "list_all is_numchar r"
      using list_all_numchar_digits by (rule list_all_take_drop [rotated])
    then show ?thesis using Cons True by (simp add: is_numchar_def)
  next
    case False
    with v Cons have "valid_exponent t" by (simp add: valid_fraction_def)
    then show ?thesis by (rule valid_exponent_numchars)
  qed
qed

lemma valid_number_numchars: "valid_number t \<Longrightarrow> list_all is_numchar t"
proof -
  assume v: "valid_number t"
  define u where "u = (case t of [] \<Rightarrow> [] | s # r \<Rightarrow> if s = 0x2D then r else t)"
  from v have "valid_fraction (dropWhile is_digit u)"
    by (simp add: valid_number_def u_def Let_def)
  then have "list_all is_numchar (dropWhile is_digit u)" by (rule valid_fraction_numchars)
  then have "list_all is_numchar u"
    using list_all_numchar_digits by (rule list_all_take_drop [rotated])
  then show ?thesis
    by (auto simp: u_def is_numchar_def split: list.splits if_splits)
qed

lemma valid_number_start:
  "valid_number t \<Longrightarrow> \<exists>c t'. t = c # t' \<and> (c = 0x2D \<or> is_digit c)"
proof -
  assume v: "valid_number t"
  show ?thesis
  proof (cases t)
    case Nil
    with v show ?thesis by (simp add: valid_number_def)
  next
    case (Cons c t')
    show ?thesis
    proof (cases "c = 0x2D")
      case True
      with Cons show ?thesis by simp
    next
      case False
      with v Cons have "takeWhile is_digit (c # t') \<noteq> []"
        by (simp add: valid_number_def Let_def)
      then have "is_digit c" by (simp split: if_splits)
      with Cons show ?thesis by simp
    qed
  qed
qed

subsection \<open>String literals\<close>

lemma nat_less_16_cases:
  fixes d :: nat
  assumes "d < 16"
  shows "d = 0 \<or> d = 1 \<or> d = 2 \<or> d = 3 \<or> d = 4 \<or> d = 5 \<or> d = 6 \<or> d = 7 \<or>
         d = 8 \<or> d = 9 \<or> d = 10 \<or> d = 11 \<or> d = 12 \<or> d = 13 \<or> d = 14 \<or> d = 15"
  using assms by arith

lemma hex_value_hex_digit:
  assumes "d < 16"
  shows "hex_value (hex_digit d) = Some d"
  using nat_less_16_cases [OF assms]
  by (elim disjE) (simp_all add: hex_value_def hex_digit_def)

lemma radix16:
  fixes n :: nat
  assumes "n = x * 16 + d" and "x = y * 16 + c" and "y = a * 16 + b"
  shows "((a * 16 + b) * 16 + c) * 16 + d = n"
  using assms by simp

lemma hex_digits_value:
  fixes n :: nat
  shows "((n div 4096 * 16 + n div 256 mod 16) * 16 + n div 16 mod 16) * 16 + n mod 16 = n"
proof -
  have a: "n div 16 div 16 = n div 256" and b: "n div 256 div 16 = n div 4096"
    by (simp_all add: div_mult2_eq [symmetric])
  have 1: "n = n div 16 * 16 + n mod 16" by simp
  have 2: "n div 16 = n div 256 * 16 + n div 16 mod 16"
    using div_mult_mod_eq [of "n div 16" 16] a by simp
  have 3: "n div 256 = n div 4096 * 16 + n div 256 mod 16"
    using div_mult_mod_eq [of "n div 256" 16] b by simp
  from 1 2 3 show ?thesis by (rule radix16)
qed

lemma lex_char_unicode_escape: "lex_char (unicode_escape c @ rest) = Some (c, rest)"
proof -
  define n where "n = unat c"
  have "n < 65536" using unsigned_less [of c, where 'a = nat] by (simp add: n_def)
  then have hv: "hex_value (hex_digit (n div 4096)) = Some (n div 4096)"
    "hex_value (hex_digit (n div 256 mod 16)) = Some (n div 256 mod 16)"
    "hex_value (hex_digit (n div 16 mod 16)) = Some (n div 16 mod 16)"
    "hex_value (hex_digit (n mod 16)) = Some (n mod 16)"
    by (simp_all add: hex_value_hex_digit)
  have "lex_char (unicode_escape c @ rest)
          = Some (of_nat (((n div 4096 * 16 + n div 256 mod 16) * 16 + n div 16 mod 16) * 16
                          + n mod 16), rest)"
    unfolding lex_char_def unicode_escape_def Let_def n_def [symmetric]
    by (simp add: hv del: of_nat_add of_nat_mult)
  also have "\<dots> = Some (of_nat n, rest)" by (simp only: hex_digits_value)
  finally show ?thesis by (simp add: n_def)
qed

lemma lex_char_plain:
  "\<not> c < 0x20 \<Longrightarrow> c \<noteq> 0x22 \<Longrightarrow> c \<noteq> 0x5C \<Longrightarrow> lex_char (c # rest) = Some (c, rest)"
  by (simp add: lex_char_def)

lemma lex_char_simple:
  "lex_char (0x5C # 0x62 # rest) = Some (0x08, rest)"
  "lex_char (0x5C # 0x74 # rest) = Some (0x09, rest)"
  "lex_char (0x5C # 0x6E # rest) = Some (0x0A, rest)"
  "lex_char (0x5C # 0x66 # rest) = Some (0x0C, rest)"
  "lex_char (0x5C # 0x72 # rest) = Some (0x0D, rest)"
  "lex_char (0x5C # 0x22 # rest) = Some (0x22, rest)"
  "lex_char (0x5C # 0x5C # rest) = Some (0x5C, rest)"
  by (simp_all add: lex_char_def simple_escape_def)

lemma unicode_escape_Cons: "\<exists>cs. unicode_escape c = 0x5C # cs"
  by (simp add: unicode_escape_def Let_def)

lemma lex_string_unicode_escape:
  assumes "lex_string r = Some (str, rest)"
  shows "lex_string (unicode_escape c @ r) = Some (c # str, rest)"
proof -
  obtain cs where cs: "unicode_escape c = 0x5C # cs" using unicode_escape_Cons by blast
  have "lex_char ((0x5C # cs) @ r) = Some (c, r)"
    using lex_char_unicode_escape [of c r] by (simp add: cs)
  then show ?thesis
    using assms by (simp add: cs)
qed

lemma surrogate_plain:
  "is_high_surrogate c \<or> is_low_surrogate c \<Longrightarrow>
     \<not> c < 0x20 \<and> c \<noteq> 0x22 \<and> c \<noteq> 0x5C \<and> c \<noteq> 0x08 \<and> c \<noteq> 0x09 \<and> c \<noteq> 0x0A \<and>
     c \<noteq> 0x0C \<and> c \<noteq> 0x0D"
  by (auto simp: is_high_surrogate_def is_low_surrogate_def word_le_nat_alt word_less_nat_alt)

lemma quote_chars_control:
  "\<not> special c \<Longrightarrow> c < 0x20 \<Longrightarrow> quote_chars (c # cs) = unicode_escape c @ quote_chars cs"
  by (simp add: special_def)

lemma quote_chars_pair:
  "is_high_surrogate c \<Longrightarrow> is_low_surrogate d \<Longrightarrow>
     quote_chars (c # d # ds) = c # d # quote_chars ds"
  using surrogate_plain [of c] by (simp add: )

lemma quote_chars_lone_high:
  "is_high_surrogate c \<Longrightarrow> cs = [] \<or> \<not> is_low_surrogate (hd cs) \<Longrightarrow>
     quote_chars (c # cs) = unicode_escape c @ quote_chars cs"
  using surrogate_plain [of c] by (cases cs) auto

lemma quote_chars_lone_low:
  "\<not> is_high_surrogate c \<Longrightarrow> is_low_surrogate c \<Longrightarrow>
     quote_chars (c # cs) = unicode_escape c @ quote_chars cs"
  using surrogate_plain [of c] by simp

lemma quote_chars_plain:
  "\<not> special c \<Longrightarrow> \<not> c < 0x20 \<Longrightarrow> \<not> is_high_surrogate c \<Longrightarrow> \<not> is_low_surrogate c \<Longrightarrow>
     quote_chars (c # cs) = c # quote_chars cs"
  by (simp add: special_def)

lemma lex_string_plain:
  assumes "\<not> c < 0x20" "c \<noteq> 0x22" "c \<noteq> 0x5C" "lex_string r = Some (str, rest)"
  shows "lex_string (c # r) = Some (c # str, rest)"
  using assms by (simp add: lex_char_plain)

lemma lex_string_quote_chars:
  "lex_string (quote_chars s @ 0x22 # rest) = Some (s, rest)"
proof (induction s rule: length_induct)
  case (1 s)
  show ?case
  proof (cases s)
    case Nil
    then show ?thesis by simp
  next
    case (Cons c cs)
    have ih: "lex_string (quote_chars cs @ 0x22 # rest) = Some (cs, rest)"
      using 1 Cons by simp
    consider (simple) "special c"
      | (control) "\<not> special c" "c < 0x20"
      | (pair) d ds where "is_high_surrogate c" "cs = d # ds" "is_low_surrogate d"
      | (lone_high) "is_high_surrogate c" "cs = [] \<or> \<not> is_low_surrogate (hd cs)"
      | (lone_low) "\<not> is_high_surrogate c" "is_low_surrogate c"
      | (plain) "\<not> special c" "\<not> c < 0x20" "\<not> is_high_surrogate c" "\<not> is_low_surrogate c"
      by (cases cs) auto
    then show ?thesis
    proof cases
      case simple
      then have "c = 0x08 \<or> c = 0x09 \<or> c = 0x0A \<or> c = 0x0C \<or> c = 0x0D \<or> c = 0x22 \<or> c = 0x5C"
        by (simp add: special_def)
      then show ?thesis
        using ih by (elim disjE) (simp_all add: Cons lex_char_simple)
    next
      case control
      show ?thesis
        using lex_string_unicode_escape [OF ih, of c]
        by (simp only: Cons quote_chars_control [OF control] append_assoc)
    next
      case pair
      have ihds: "lex_string (quote_chars ds @ 0x22 # rest) = Some (ds, rest)"
        using 1 Cons pair(2) by simp
      have d: "\<not> d < 0x20" "d \<noteq> 0x22" "d \<noteq> 0x5C"
        using surrogate_plain [of d] pair(3) by simp_all
      have c: "\<not> c < 0x20" "c \<noteq> 0x22" "c \<noteq> 0x5C"
        using surrogate_plain [of c] pair(1) by simp_all
      have "lex_string (d # quote_chars ds @ 0x22 # rest) = Some (d # ds, rest)"
        by (rule lex_string_plain [OF d ihds])
      then have "lex_string (c # d # quote_chars ds @ 0x22 # rest) = Some (c # d # ds, rest)"
        by (rule lex_string_plain [OF c])
      then show ?thesis
        by (simp only: Cons pair(2) quote_chars_pair [OF pair(1,3)] append_Cons)
    next
      case lone_high
      show ?thesis
        using lex_string_unicode_escape [OF ih, of c]
        by (simp only: Cons quote_chars_lone_high [OF lone_high] append_assoc)
    next
      case lone_low
      show ?thesis
        using lex_string_unicode_escape [OF ih, of c]
        by (simp only: Cons quote_chars_lone_low [OF lone_low] append_assoc)
    next
      case plain
      have c: "\<not> c < 0x20" "c \<noteq> 0x22" "c \<noteq> 0x5C"
        using plain(1,2) by (simp_all add: special_def)
      have "lex_string (c # quote_chars cs @ 0x22 # rest) = Some (c # cs, rest)"
        by (rule lex_string_plain [OF c ih])
      then show ?thesis
        by (simp only: Cons quote_chars_plain [OF plain] append_Cons)
    qed
  qed
qed

lemma lex_string_QuoteJSONString:
  "\<exists>cs. QuoteJSONString s @ rest = 0x22 # cs \<and> lex_string cs = Some (s, rest)"
  by (simp add: QuoteJSONString_def lex_string_quote_chars)

subsection \<open>Tokens of a serialized value\<close>

lemma lex_punctuation:
  "lex (0x7B # cs) = cons_token LBrace (lex cs)"
  "lex (0x7D # cs) = cons_token RBrace (lex cs)"
  "lex (0x5B # cs) = cons_token LBracket (lex cs)"
  "lex (0x5D # cs) = cons_token RBracket (lex cs)"
  "lex (0x3A # cs) = cons_token Colon (lex cs)"
  "lex (0x2C # cs) = cons_token Comma (lex cs)"
  by (simp_all add: lex.simps(2) is_json_space_def)

lemma lex_literal:
  "lex (ascii ''null'' @ rest) = cons_token TNull (lex rest)"
  "lex (ascii ''true'' @ rest) = cons_token TTrue (lex rest)"
  "lex (ascii ''false'' @ rest) = cons_token TFalse (lex rest)"
  by (simp_all add: lex.simps(2) ascii_def is_json_space_def is_digit_def)

lemma lex_string_token:
  "lex (QuoteJSONString s @ rest) = cons_token (TString s) (lex rest)"
  by (simp add: QuoteJSONString_def lex.simps(2) is_json_space_def lex_string_quote_chars)

lemma number_start_not_other:
  assumes "c = 0x2D \<or> is_digit c"
  shows "\<not> is_json_space c \<and> c \<noteq> 0x7B \<and> c \<noteq> 0x7D \<and> c \<noteq> 0x5B \<and> c \<noteq> 0x5D \<and> c \<noteq> 0x3A \<and>
         c \<noteq> 0x2C \<and> c \<noteq> 0x22"
  using assms by (auto simp: is_json_space_def is_digit_def)

lemma lex_number_token:
  assumes "valid_number t" and "rest = [] \<or> \<not> is_numchar (hd rest)"
  shows "lex (t @ rest) = cons_token (TNumber t) (lex rest)"
proof -
  obtain c t' where t: "t = c # t'" and c: "c = 0x2D \<or> is_digit c"
    using valid_number_start [OF assms(1)] by blast
  have "list_all is_numchar t" using assms(1) by (rule valid_number_numchars)
  then have all: "\<And>x. x \<in> set t' \<Longrightarrow> is_numchar x" by (simp add: t list_all_iff)
  have tr: "takeWhile is_numchar rest = []" "dropWhile is_numchar rest = rest"
    using assms(2) by (cases rest; simp)+
  have tw: "takeWhile is_numchar (t' @ rest) = t'"
    using takeWhile_append2 [of t' is_numchar rest] all tr by simp
  have dw: "dropWhile is_numchar (t' @ rest) = rest"
    using dropWhile_append2 [of t' is_numchar rest] all tr by simp
  show ?thesis
    using number_start_not_other [OF c] c assms(1)
    by (simp add: t lex.simps(2) tw dw)
qed

lemma not_numchar_delimiters:
  "\<not> is_numchar 0x2C" "\<not> is_numchar 0x5D" "\<not> is_numchar 0x7D"
  by (simp_all add: is_numchar_def is_digit_def)

lemma cons_token_append:
  "prepend_tokens ts (cons_token t r) = prepend_tokens (ts @ [t]) r"
  by (cases r) (simp_all add: cons_token_def prepend_tokens_def)

lemma cons_token_prepend:
  "cons_token t (prepend_tokens ts r) = prepend_tokens (t # ts) r"
  by (cases r) (simp_all add: cons_token_def prepend_tokens_def)

lemma cons_token_as_append: "cons_token t r = prepend_tokens [t] r"
  by (cases r) (simp_all add: cons_token_def prepend_tokens_def)

lemma map_option_append_append:
  "prepend_tokens xs (prepend_tokens ys r) = prepend_tokens (xs @ ys) r"
  by (cases r) (simp_all add: prepend_tokens_def)

text \<open>Lexing a comma-separated list that is closed by a bracket.\<close>

lemma lex_join:
  fixes render :: "'a \<Rightarrow> jsstring" and toks :: "'a \<Rightarrow> token list"
  assumes el: "\<And>x rest. x \<in> set xs \<Longrightarrow> rest = [] \<or> \<not> is_numchar (hd rest) \<Longrightarrow>
                 lex (render x @ rest) = prepend_tokens (toks x) (lex rest)"
    and cl: "\<And>r. lex (close # r) = cons_token ctok (lex r)" and ncl: "\<not> is_numchar close"
  shows "lex (join_with 0x2C (map render xs) @ close # rest)
           = prepend_tokens (join_with Comma (map toks xs) @ [ctok]) (lex rest)"
  using el
proof (induction xs)
  case Nil
  show ?case by (simp add: cl cons_token_as_append)
next
  case (Cons x xs)
  show ?case
  proof (cases xs)
    case Nil
    have "lex (render x @ close # rest) = prepend_tokens (toks x) (lex (close # rest))"
      using Cons.prems [of x "close # rest"] ncl by simp
    then show ?thesis
      by (simp add: Nil cl cons_token_append)
  next
    case (Cons y ys)
    let ?tail = "join_with 0x2C (map render xs) @ close # rest"
    have ih: "lex ?tail = prepend_tokens (join_with Comma (map toks xs) @ [ctok]) (lex rest)"
      using Cons.IH Cons.prems by simp
    have "lex (render x @ 0x2C # ?tail) = prepend_tokens (toks x) (lex (0x2C # ?tail))"
      using Cons.prems [of x "0x2C # ?tail"] not_numchar_delimiters(1) by simp
    also have "\<dots> = prepend_tokens (toks x @ [Comma]) (lex ?tail)"
      by (simp add: lex_punctuation cons_token_append)
    also have "\<dots> = prepend_tokens ((toks x @ [Comma]) @ join_with Comma (map toks xs) @ [ctok])
                        (lex rest)"
      by (simp only: ih map_option_append_append)
    finally show ?thesis by (simp add: Cons)
  qed
qed

lemma not_valid_number_names:
  "\<not> valid_number (ascii ''NaN'')" "\<not> valid_number (ascii ''Infinity'')"
  "\<not> valid_number (ascii ''-Infinity'')"
  by (simp_all add: valid_number_def ascii_def is_digit_def)

lemma serialize_json_value:
  "json_value num v \<Longrightarrow> SerializeJSONProperty v = Some (stored_text v)"
  by (cases v) (simp_all add: stored_text_def JSON_stringify_def)

lemma stored_text_simps:
  "stored_text JNull = ascii ''null''"
  "stored_text (JBool b) = (if b then ascii ''true'' else ascii ''false'')"
  "stored_text (JStr s) = QuoteJSONString s"
  "number_text num t \<Longrightarrow> stored_text (JNum t) = t"
  using not_valid_number_names
  by (auto simp: stored_text_def JSON_stringify_def number_text_def)

lemma stored_text_JArr:
  assumes "\<forall>x\<in>set xs. json_value num x"
  shows "stored_text (JArr xs) = 0x5B # join_with 0x2C (map stored_text xs) @ [0x5D]"
proof -
  have "map (\<lambda>x. case SerializeJSONProperty x of None \<Rightarrow> ascii ''null'' | Some t \<Rightarrow> t) xs
        = map stored_text xs"
    using assms by (intro map_cong refl) (simp add: serialize_json_value [of num])
  then have "SerializeJSONProperty (JArr xs)
               = Some (0x5B # join_with 0x2C (map stored_text xs) @ [0x5D])"
    by (simp only: SerializeJSONProperty.simps)
  then show ?thesis by (simp only: stored_text_def [of "JArr xs"] JSON_stringify_def option.case)
qed

lemma stored_text_JObj:
  assumes "\<forall>p\<in>set ps. json_value num (snd p)"
  shows "stored_text (JObj ps) =
           0x7B # join_with 0x2C (map (\<lambda>p. QuoteJSONString (fst p) @ 0x3A # stored_text (snd p)) ps)
           @ [0x7D]"
proof -
  have "map (\<lambda>p. case SerializeJSONProperty (snd p) of
                    None \<Rightarrow> []
                  | Some t \<Rightarrow> [QuoteJSONString (fst p) @ 0x3A # t]) ps
        = map (\<lambda>p. [QuoteJSONString (fst p) @ 0x3A # stored_text (snd p)]) ps"
    using assms by (intro map_cong refl) (simp add: serialize_json_value [of num])
  moreover have "concat (map (\<lambda>p. [f p]) ps) = map f ps" for f :: "jsstring \<times> jsval \<Rightarrow> jsstring"
    by (induction ps) simp_all
  ultimately have "SerializeJSONProperty (JObj ps)
      = Some (0x7B # join_with 0x2C
                (map (\<lambda>p. QuoteJSONString (fst p) @ 0x3A # stored_text (snd p)) ps) @ [0x7D])"
    by (simp only: SerializeJSONProperty.simps)
  then show ?thesis by (simp only: stored_text_def [of "JObj ps"] JSON_stringify_def option.case)
qed

lemma lex_stored_text:
  "json_value num v \<Longrightarrow> rest = [] \<or> \<not> is_numchar (hd rest) \<Longrightarrow>
     lex (stored_text v @ rest) = prepend_tokens (tokens_of v) (lex rest)"
proof (induction v arbitrary: rest)
  case JUndefined
  then show ?case by simp
next
  case JNull
  show ?case by (simp add: stored_text_simps lex_literal cons_token_as_append)
next
  case (JBool b)
  show ?case by (simp add: stored_text_simps lex_literal cons_token_as_append)
next
  case (JNum t)
  then have nt: "number_text num t" by simp
  then have "valid_number t" by (simp add: number_text_def)
  then show ?case
    using JNum.prems(2) by (simp add: stored_text_simps(4) [OF nt] lex_number_token
        cons_token_as_append)
next
  case (JStr s)
  show ?case by (simp add: stored_text_simps lex_string_token cons_token_as_append)
next
  case (JArr xs)
  have jv: "\<forall>x\<in>set xs. json_value num x" using JArr.prems(1) by simp
  have el: "\<And>x rest. x \<in> set xs \<Longrightarrow> rest = [] \<or> \<not> is_numchar (hd rest) \<Longrightarrow>
              lex (stored_text x @ rest) = prepend_tokens (tokens_of x) (lex rest)"
    using JArr.IH jv by blast
  have "lex (join_with 0x2C (map stored_text xs) @ 0x5D # rest)
          = prepend_tokens (join_with Comma (map tokens_of xs) @ [RBracket]) (lex rest)"
    using el lex_punctuation(4) not_numchar_delimiters(2) by (rule lex_join)
  then show ?case
    by (simp add: stored_text_JArr [OF jv] lex_punctuation cons_token_prepend)
next
  case (JObj ps)
  have jv: "\<forall>p\<in>set ps. json_value num (snd p)" using JObj.prems(1) by simp
  have el: "lex ((QuoteJSONString (fst p) @ 0x3A # stored_text (snd p)) @ rest)
              = prepend_tokens (TString (fst p) # Colon # tokens_of (snd p)) (lex rest)"
    if "p \<in> set ps" "rest = [] \<or> \<not> is_numchar (hd rest)" for p rest
  proof -
    have "snd p \<in> Basic_BNFs.snds p" by (cases p) simp
    then have "lex (stored_text (snd p) @ rest) = prepend_tokens (tokens_of (snd p)) (lex rest)"
      using JObj.IH [OF that(1)] jv that by blast
    then show ?thesis
      by (simp add: lex_string_token lex_punctuation cons_token_as_append
          map_option_append_append)
  qed
  have "lex (join_with 0x2C (map (\<lambda>p. QuoteJSONString (fst p) @ 0x3A # stored_text (snd p)) ps)
               @ 0x7D # rest)
          = prepend_tokens (join_with Comma (map (\<lambda>p. TString (fst p) # Colon # tokens_of (snd p)) ps)
                             @ [RBrace]) (lex rest)"
    using el lex_punctuation(2) not_numchar_delimiters(3) by (rule lex_join)
  then show ?case
    by (simp add: stored_text_JObj [OF jv] lex_punctuation cons_token_prepend)
qed

subsection \<open>Parsing the tokens of a value\<close>

text \<open>
  Every value takes at least one token, so the comparison of lengths in
  \<open>parse_elements\<close> and \<open>parse_members\<close> never fails.
\<close>

lemma parse_elements_shorter:
  "parse_elements num ts = Some (xs, r) \<Longrightarrow> length r < length ts"
proof (induction "length ts" arbitrary: ts xs r rule: less_induct)
  case less
  from less.prems obtain x rest where g: "length rest < length ts"
    and c: "(case rest of
               Comma # rest' \<Rightarrow>
                 (case parse_elements num rest' of
                    None \<Rightarrow> None
                  | Some (ys, q) \<Rightarrow> Some (x # ys, q))
             | RBracket # rest' \<Rightarrow> Some ([x], rest')
             | _ \<Rightarrow> None) = Some (xs, r)"
    by (subst (asm) parse_elements.simps) (auto split: option.splits if_splits)
  show ?case
  proof (cases rest)
    case Nil
    with c show ?thesis by simp
  next
    case (Cons t rest')
    show ?thesis
    proof (cases t)
      case Comma
      with c Cons obtain ys where e: "parse_elements num rest' = Some (ys, r)"
        by (auto split: option.splits)
      have "length rest' < length ts" using g Cons by simp
      from less.hyps [OF this e] g Cons show ?thesis by simp
    next
      case RBracket
      with c Cons g show ?thesis by auto
    qed (use c Cons in simp_all)
  qed
qed

lemma parse_members_shorter:
  "parse_members num ts = Some (ps, r) \<Longrightarrow> length r < length ts"
proof (induction "length ts" arbitrary: ts ps r rule: less_induct)
  case less
  from less.prems obtain k ts' where ts: "ts = TString k # Colon # ts'"
    by (subst (asm) parse_members.simps) (auto split: list.splits token.splits)
  from less.prems ts obtain v rest where g: "length rest < length ts'"
    and c: "(case rest of
               Comma # rest' \<Rightarrow>
                 (case parse_members num rest' of
                    None \<Rightarrow> None
                  | Some (qs, q) \<Rightarrow> Some ((k, v) # qs, q))
             | RBrace # rest' \<Rightarrow> Some ([(k, v)], rest')
             | _ \<Rightarrow> None) = Some (ps, r)"
    by (subst (asm) parse_members.simps) (auto split: option.splits if_splits)
  show ?case
  proof (cases rest)
    case Nil
    with c show ?thesis by simp
  next
    case (Cons t rest')
    show ?thesis
    proof (cases t)
      case Comma
      with c Cons obtain qs where e: "parse_members num rest' = Some (qs, r)"
        by (auto split: option.splits)
      have "length rest' < length ts" using g Cons ts by simp
      from less.hyps [OF this e] g Cons ts show ?thesis by simp
    next
      case RBrace
      with c Cons g ts show ?thesis by auto
    qed (use c Cons in simp_all)
  qed
qed

lemma parse_value_shorter:
  "parse_value num ts = Some (v, r) \<Longrightarrow> length r < length ts"
proof (cases ts)
  case Nil
  assume "parse_value num ts = Some (v, r)"
  with Nil show ?thesis by simp
next
  case (Cons t ts')
  assume p: "parse_value num ts = Some (v, r)"
  show ?thesis
  proof (cases t)
    case LBracket
    show ?thesis
    proof (cases "\<exists>q. ts' = RBracket # q")
      case True
      with p Cons LBracket show ?thesis by auto
    next
      case False
      then have "parse_value num (LBracket # ts') =
                   (case parse_elements num ts' of
                      None \<Rightarrow> None
                    | Some (xs, rest) \<Rightarrow> Some (JArr xs, rest))"
        by (cases ts'; simp split: token.splits)
      with p Cons LBracket obtain xs where "parse_elements num ts' = Some (xs, r)"
        by (auto split: option.splits)
      from parse_elements_shorter [OF this] Cons show ?thesis by simp
    qed
  next
    case LBrace
    show ?thesis
    proof (cases "\<exists>q. ts' = RBrace # q")
      case True
      with p Cons LBrace show ?thesis by auto
    next
      case False
      then have "parse_value num (LBrace # ts') =
                   (case parse_members num ts' of
                      None \<Rightarrow> None
                    | Some (ps, rest) \<Rightarrow>
                        Some (JObj (fold (\<lambda>p. obj_put (fst p) (snd p)) ps []), rest))"
        by (cases ts'; simp split: token.splits)
      with p Cons LBrace obtain ps where "parse_members num ts' = Some (ps, r)"
        by (auto split: option.splits)
      from parse_members_shorter [OF this] Cons show ?thesis by simp
    qed
  qed (use p Cons in auto)
qed

text \<open>Creating the properties of a canonical list one after the other rebuilds the list.\<close>

lemma put_new_append:
  assumes "\<forall>p\<in>set acc. case array_index k of
                            None \<Rightarrow> True
                          | Some i \<Rightarrow> (\<exists>j. array_index (fst p) = Some j \<and> j < i)"
  shows "put_new k v acc = acc @ [(k, v)]"
  using assms by (induction acc) (auto split: option.splits)

lemma canonical_keys_before:
  assumes "canonical_keys (ks @ k # ks')"
  shows "k \<notin> set ks \<and>
         (\<forall>k0\<in>set ks. case array_index k of
                          None \<Rightarrow> True
                        | Some i \<Rightarrow> (\<exists>j. array_index k0 = Some j \<and> j < i))"
  using assms
proof (induction ks)
  case Nil
  then show ?case by simp
next
  case (Cons a ks)
  then have ih: "k \<notin> set ks \<and>
         (\<forall>k0\<in>set ks. case array_index k of
                          None \<Rightarrow> True
                        | Some i \<Rightarrow> (\<exists>j. array_index k0 = Some j \<and> j < i))"
    by simp
  from Cons.prems have a: "a \<noteq> k"
    and b: "case array_index a of
              None \<Rightarrow> array_index k = None
            | Some i \<Rightarrow> (case array_index k of None \<Rightarrow> True | Some j \<Rightarrow> i < j)"
    by (auto split: option.splits)
  from b have "case array_index k of
                 None \<Rightarrow> True
               | Some i \<Rightarrow> (\<exists>j. array_index a = Some j \<and> j < i)"
    by (auto split: option.splits)
  with ih a show ?case by auto
qed

lemma fold_obj_put_canonical:
  assumes "canonical_keys (map fst (acc @ ps))"
  shows "fold (\<lambda>p. obj_put (fst p) (snd p)) ps acc = acc @ ps"
  using assms
proof (induction ps arbitrary: acc)
  case Nil
  show ?case by simp
next
  case (Cons p ps)
  have "canonical_keys (map fst acc @ fst p # map fst ps)" using Cons.prems by simp
  from canonical_keys_before [OF this]
  have new: "fst p \<notin> fst ` set acc"
    and ord: "\<forall>q\<in>set acc. case array_index (fst p) of
                             None \<Rightarrow> True
                           | Some i \<Rightarrow> (\<exists>j. array_index (fst q) = Some j \<and> j < i)"
    by auto
  have "obj_put (fst p) (snd p) acc = acc @ [p]"
    using new put_new_append [OF ord, of "snd p"] by (simp add: obj_put_def)
  moreover have "canonical_keys (map fst ((acc @ [p]) @ ps))" using Cons.prems by simp
  ultimately show ?case using Cons.IH [of "acc @ [p]"] by simp
qed

text \<open>The first token of a value opens it.\<close>

lemma tokens_of_start:
  "json_value num v \<Longrightarrow> \<exists>t r. tokens_of v = t # r \<and> t \<noteq> RBracket \<and> t \<noteq> RBrace"
  by (cases v) auto

lemma join_with_start:
  assumes "xs \<noteq> []" and "\<forall>x\<in>set xs. \<exists>t r. f x = t # r \<and> P t"
  shows "\<exists>t r. join_with sep (map f xs) @ ys = t # r \<and> P t"
proof (cases xs)
  case Nil
  with assms(1) show ?thesis by simp
next
  case (Cons x xs')
  then obtain t r where "f x = t # r" "P t" using assms(2) by auto
  then show ?thesis using Cons by (cases xs') auto
qed

lemma parse_value_array:
  assumes "ts = t # r" and "t \<noteq> RBracket"
  shows "parse_value num (LBracket # ts) =
           (case parse_elements num ts of
              None \<Rightarrow> None
            | Some (xs, rest) \<Rightarrow> Some (JArr xs, rest))"
  using assms by (cases t) simp_all

lemma parse_value_object:
  assumes "ts = t # r" and "t \<noteq> RBrace"
  shows "parse_value num (LBrace # ts) =
           (case parse_members num ts of
              None \<Rightarrow> None
            | Some (ps, rest) \<Rightarrow>
                Some (JObj (fold (\<lambda>p. obj_put (fst p) (snd p)) ps []), rest))"
  using assms by (cases t) simp_all

lemma parse_elements_step:
  assumes "parse_value num (toks @ rest) = Some (x, rest)" and "toks \<noteq> []"
  shows "parse_elements num (toks @ rest) =
           (case rest of
              Comma # rest' \<Rightarrow>
                (case parse_elements num rest' of
                   None \<Rightarrow> None
                 | Some (xs, r) \<Rightarrow> Some (x # xs, r))
            | RBracket # rest' \<Rightarrow> Some ([x], rest')
            | _ \<Rightarrow> None)"
  using assms by (subst parse_elements.simps) simp

lemma parse_members_step:
  assumes "parse_value num (toks @ rest) = Some (v, rest)" and "toks \<noteq> []"
  shows "parse_members num (TString k # Colon # toks @ rest) =
           (case rest of
              Comma # rest' \<Rightarrow>
                (case parse_members num rest' of
                   None \<Rightarrow> None
                 | Some (ps, r) \<Rightarrow> Some ((k, v) # ps, r))
            | RBrace # rest' \<Rightarrow> Some ([(k, v)], rest')
            | _ \<Rightarrow> None)"
  using assms by (subst parse_members.simps) simp

lemma parse_elements_tokens:
  assumes "xs \<noteq> []"
    and "\<And>x ts. x \<in> set xs \<Longrightarrow> parse_value num (tokens_of x @ ts) = Some (x, ts)"
    and "\<forall>x\<in>set xs. tokens_of x \<noteq> []"
  shows "parse_elements num (join_with Comma (map tokens_of xs) @ RBracket # ts) = Some (xs, ts)"
  using assms
proof (induction xs)
  case Nil
  then show ?case by simp
next
  case (Cons x xs)
  have ne: "tokens_of x \<noteq> []" using Cons.prems(3) by simp
  show ?case
  proof (cases xs)
    case Nil
    have "parse_value num (tokens_of x @ RBracket # ts) = Some (x, RBracket # ts)"
      using Cons.prems(2) by simp
    from parse_elements_step [OF this ne] show ?thesis by (simp add: Nil)
  next
    case (Cons y ys)
    let ?tail = "join_with Comma (map tokens_of xs) @ RBracket # ts"
    have ih: "parse_elements num ?tail = Some (xs, ts)"
      using Cons.IH Cons.prems Cons by simp
    have "parse_value num (tokens_of x @ Comma # ?tail) = Some (x, Comma # ?tail)"
      using Cons.prems(2) by simp
    from parse_elements_step [OF this ne] ih show ?thesis by (simp add: Cons)
  qed
qed

lemma parse_members_tokens:
  assumes "ps \<noteq> []"
    and "\<And>p ts. p \<in> set ps \<Longrightarrow> parse_value num (tokens_of (snd p) @ ts) = Some (snd p, ts)"
    and "\<forall>p\<in>set ps. tokens_of (snd p) \<noteq> []"
  shows "parse_members num
           (join_with Comma (map (\<lambda>p. TString (fst p) # Colon # tokens_of (snd p)) ps)
            @ RBrace # ts) = Some (ps, ts)"
  using assms
proof (induction ps)
  case Nil
  then show ?case by simp
next
  case (Cons p ps)
  have ne: "tokens_of (snd p) \<noteq> []" using Cons.prems(3) by simp
  show ?case
  proof (cases ps)
    case Nil
    have "parse_value num (tokens_of (snd p) @ RBrace # ts) = Some (snd p, RBrace # ts)"
      using Cons.prems(2) by simp
    from parse_members_step [OF this ne, of "fst p"] show ?thesis by (simp add: Nil)
  next
    case (Cons q qs)
    let ?tail = "join_with Comma (map (\<lambda>p. TString (fst p) # Colon # tokens_of (snd p)) ps)
                 @ RBrace # ts"
    have ih: "parse_members num ?tail = Some (ps, ts)"
      using Cons.IH Cons.prems Cons by simp
    have "parse_value num (tokens_of (snd p) @ Comma # ?tail) = Some (snd p, Comma # ?tail)"
      using Cons.prems(2) by simp
    from parse_members_step [OF this ne, of "fst p"] ih show ?thesis by (simp add: Cons)
  qed
qed

lemma parse_value_tokens:
  "json_value num v \<Longrightarrow> parse_value num (tokens_of v @ ts) = Some (v, ts)"
proof (induction v arbitrary: ts)
  case JUndefined
  then show ?case by simp
next
  case JNull
  show ?case by simp
next
  case (JBool b)
  show ?case by simp
next
  case (JNum t)
  then show ?case by (simp add: number_text_def)
next
  case (JStr s)
  show ?case by simp
next
  case (JArr xs)
  show ?case
  proof (cases "xs = []")
    case True
    then show ?thesis by simp
  next
    case False
    have jv: "\<forall>x\<in>set xs. json_value num x" using JArr.prems by simp
    then have st: "\<forall>x\<in>set xs. \<exists>t r. tokens_of x = t # r \<and> t \<noteq> RBracket"
      using tokens_of_start by blast
    then have ne: "\<forall>x\<in>set xs. tokens_of x \<noteq> []" by auto
    have el: "\<And>x ts. x \<in> set xs \<Longrightarrow> parse_value num (tokens_of x @ ts) = Some (x, ts)"
      using JArr.IH jv by blast
    obtain t r where "join_with Comma (map tokens_of xs) @ RBracket # ts = t # r" "t \<noteq> RBracket"
      using join_with_start [OF False st] by blast
    from parse_value_array [OF this]
    show ?thesis
      by (simp add: parse_elements_tokens [OF False el ne])
  qed
next
  case (JObj ps)
  have ck: "canonical_keys (map fst ps)" using JObj.prems by simp
  have rebuild: "fold (\<lambda>p. obj_put (fst p) (snd p)) ps [] = ps"
    using fold_obj_put_canonical [of "[]" ps] ck by simp
  show ?case
  proof (cases "ps = []")
    case True
    then show ?thesis by simp
  next
    case False
    have jv: "\<forall>p\<in>set ps. json_value num (snd p)" using JObj.prems by simp
    then have ne: "\<forall>p\<in>set ps. tokens_of (snd p) \<noteq> []"
      using tokens_of_start by fastforce
    have el: "parse_value num (tokens_of (snd p) @ ts) = Some (snd p, ts)"
      if "p \<in> set ps" for p ts
    proof -
      have "snd p \<in> Basic_BNFs.snds p" by (cases p) simp
      then show ?thesis using JObj.IH [OF that] jv that by blast
    qed
    have st: "\<forall>p\<in>set ps. \<exists>t r. TString (fst p) # Colon # tokens_of (snd p) = t # r \<and> t \<noteq> RBrace"
      by simp
    obtain t r where
      "join_with Comma (map (\<lambda>p. TString (fst p) # Colon # tokens_of (snd p)) ps) @ RBrace # ts
         = t # r" "t \<noteq> RBrace"
      using join_with_start [OF False st] by blast
    from parse_value_object [OF this]
    show ?thesis
      by (simp add: parse_members_tokens [OF False el ne] rebuild)
  qed
qed

lemma JSON_parse_stored_text:
  assumes "json_value num v"
  shows "JSON_parse num (stored_text v) = Inr v"
proof -
  have "lex (stored_text v @ []) = prepend_tokens (tokens_of v) (lex [])"
    using assms by (intro lex_stored_text) simp_all
  then have "lex (stored_text v) = Some (tokens_of v)"
    by (simp add: prepend_tokens_def)
  moreover have "parse_value num (tokens_of v @ []) = Some (v, [])"
    using assms by (rule parse_value_tokens)
  ultimately show ?thesis by (simp add: JSON_parse_def)
qed

lemma stored_text_nonempty: "json_value num v \<Longrightarrow> stored_text v \<noteq> []"
proof -
  assume jv: "json_value num v"
  then obtain t r where "tokens_of v = t # r" using tokens_of_start by blast
  moreover have "lex (stored_text v @ []) = prepend_tokens (tokens_of v) (lex [])"
    using jv by (intro lex_stored_text) simp_all
  ultimately show ?thesis by (auto simp: prepend_tokens_def)
qed


subsection \<open>The sequence of a watchlist stays a JSON value\<close>

text \<open>
  A new watchlist holds a JSON value, and \<open>add\<close> of a JSON object and \<open>remove\<close> keep
  it one.
\<close>

lemma canonical_keys_snoc:
  "canonical_keys ks \<Longrightarrow> k \<notin> set ks \<Longrightarrow> array_index k = None \<Longrightarrow> canonical_keys (ks @ [k])"
  by (induction ks) (auto split: option.splits)

lemma json_value_with_default_watched:
  assumes "json_value num (JObj e)"
  shows "json_value num (JObj (with_default_watched e))"
proof (cases "own_prop e (ascii ''watched'') = JUndefined")
  case False
  with assms show ?thesis by (simp add: with_default_watched_def)
next
  case True
  have "map_of e (ascii ''watched'') = None"
  proof (rule ccontr)
    assume "map_of e (ascii ''watched'') \<noteq> None"
    then obtain v where v: "map_of e (ascii ''watched'') = Some v" by auto
    then have "(ascii ''watched'', v) \<in> set e" by (rule map_of_SomeD)
    then have "json_value num v" using assms by auto
    moreover have "v = JUndefined" using True v by (simp add: own_prop_def)
    ultimately show False by simp
  qed
  then have new: "ascii ''watched'' \<notin> fst ` set e" by (simp add: map_of_eq_None_iff)
  have ni: "array_index (ascii ''watched'') = None"
    by (simp add: array_index_def ascii_def is_digit_def)
  have "put_new (ascii ''watched'') (JBool False) e = e @ [(ascii ''watched'', JBool False)]"
    by (rule put_new_append) (simp add: ni)
  then have "with_default_watched e = e @ [(ascii ''watched'', JBool False)]"
    using True new by (simp add: with_default_watched_def obj_put_def)
  moreover have "canonical_keys (map fst e @ [ascii ''watched''])"
    using assms new ni by (intro canonical_keys_snoc) simp_all
  ultimately show ?thesis using assms by simp
qed

lemma Array_filter_subset: "Array_filter f xs = Inr ys \<Longrightarrow> set ys \<subseteq> set xs"
  by (induction xs arbitrary: ys) (auto split: sum.splits if_splits)

lemma json_value_kept:
  "json_value num (items (new_Watchlist k ls hist))"
  "json_value num (items st) \<Longrightarrow> json_value num (JObj movie) \<Longrightarrow>
     json_value num (items (snd (add movie st)))"
  "json_value num (items st) \<Longrightarrow> json_value num (items (snd (remove imdbID st)))"
proof -
  show "json_value num (items (new_Watchlist k ls hist))" by (simp add: new_Watchlist_def)
next
  assume a: "json_value num (items st)" and m: "json_value num (JObj movie)"
  have w: "json_value num (JObj (with_default_watched movie))"
    using m by (rule json_value_with_default_watched)
  have "items (snd (add movie st)) = items st \<or>
        (\<exists>ms. items st = JArr ms \<and>
              items (snd (add movie st)) = JArr (ms @ [JObj (with_default_watched movie)]))"
    by (simp add: add_def save_def split: jsval.splits sum.splits)
  then show "json_value num (items (snd (add movie st)))"
  proof
    assume "items (snd (add movie st)) = items st"
    with a show ?thesis by simp
  next
    assume "\<exists>ms. items st = JArr ms \<and>
              items (snd (add movie st)) = JArr (ms @ [JObj (with_default_watched movie)])"
    then obtain ms where ms: "items st = JArr ms"
      and r: "items (snd (add movie st)) = JArr (ms @ [JObj (with_default_watched movie)])"
      by blast
    from a ms have "\<forall>x\<in>set ms. json_value num x" by simp
    with w show ?thesis by (simp only: r json_value.simps set_append) auto
  qed
next
  assume a: "json_value num (items st)"
  show "json_value num (items (snd (remove imdbID st)))"
    using a Array_filter_subset
    by (fastforce simp: remove_def save_def split: jsval.splits sum.splits)
qed

text \<open>
  Claim C3. When the sequence is a value that JSON texts denote (see \<open>json_value\<close>),
  \<open>load\<close> reads back what \<open>save\<close> has written, whatever the watchlist holds in memory
  when \<open>load\<close> is called: it returns normally, and the sequence after \<open>load\<close> is the
  sequence at the time of \<open>save\<close>, the rest of the state being as \<open>save\<close> left it. After
  a reload of the page the watchlist is a new one on the same key and the same store,
  which holds the empty sequence in memory.
\<close>

theorem save_load_roundtrip:
  assumes "json_value num (items st)"
  shows "load num ((snd (save st))\<lparr>items := other\<rparr>) = (Return (), snd (save st)) \<and>
         items (snd (load num ((snd (save st))\<lparr>items := other\<rparr>))) = items st \<and>
         load num (new_Watchlist (storageKey st) (localStorage (snd (save st)))
                     (setItem_calls (snd (save st))))
           = (Return (), snd (save st))"
proof -
  let ?st' = "snd (save st)"
  have reload: "load num (?st'\<lparr>items := v\<rparr>) = (Return (), ?st')" for v
  proof -
    have s: "localStorage (?st'\<lparr>items := v\<rparr>) (storageKey (?st'\<lparr>items := v\<rparr>))
               = Some (stored_text (items st))"
      by (simp add: save_def)
    have "load num (?st'\<lparr>items := v\<rparr>) = (Return (), ?st'\<lparr>items := v, items := items st\<rparr>)"
      using s stored_text_nonempty [OF assms] JSON_parse_stored_text [OF assms]
      by (simp add: load_def)
    moreover have "?st'\<lparr>items := v, items := items st\<rparr> = ?st'" by (simp add: save_def)
    ultimately show ?thesis by simp
  qed
  have i: "items ?st' = items st" by (simp add: save_def)
  have new: "new_Watchlist (storageKey st) (localStorage ?st') (setItem_calls ?st')
               = ?st'\<lparr>items := JArr []\<rparr>"
    by (simp add: new_Watchlist_def save_def)
  show ?thesis using reload [of other] reload [of "JArr []"] i new by simp
qed

theorem save_load_roundtrip_witness:
  "json_value id (items (watchlist_of [up_entry, heat_watched])) \<and>
   load id ((snd (save (watchlist_of [up_entry, heat_watched])))\<lparr>items := JArr []\<rparr>)
     = (Return (), snd (save (watchlist_of [up_entry, heat_watched]))) \<and>
   items (snd (load id ((snd (save (watchlist_of [up_entry, heat_watched])))\<lparr>items := JArr []\<rparr>)))
     = JArr [up_entry, heat_watched]"
proof -
  have jv: "json_value id (items (watchlist_of [up_entry, heat_watched]))"
    by (simp add: example_defs array_index_def is_digit_def ascii_def)
  have i: "items (watchlist_of [up_entry, heat_watched]) = JArr [up_entry, heat_watched]"
    "items (snd (save (watchlist_of [up_entry, heat_watched]))) = JArr [up_entry, heat_watched]"
    by (simp_all add: watchlist_of_def save_def)
  show ?thesis using save_load_roundtrip [OF jv, of "JArr []"] jv i by simp
qed


section \<open>The serializer and the parser on examples\<close>

lemma stored_text_example:
  "stored_text (JArr [JObj [(ascii ''imdbID'', JStr (ascii ''tt1'')), (ascii ''watched'', JBool False)]])
     = ascii ''[{'' @ [0x22] @ ascii ''imdbID'' @ [0x22] @ ascii '':'' @ [0x22] @ ascii ''tt1''
       @ [0x22] @ ascii '','' @ [0x22] @ ascii ''watched'' @ [0x22] @ ascii '':false}]''"
  by code_simp

lemma JSON_parse_example:
  "JSON_parse id (ascii '' [ {'' @ [0x22] @ ascii ''b'' @ [0x22] @ ascii '': 1.5e3, ''
       @ [0x22, 0x31, 0x22] @ ascii '':['' @ [0x22, 0x5C, 0x75, 0x30, 0x30, 0x34, 0x31, 0x5C, 0x6E, 0x22]
       @ ascii '', null], '' @ [0x22, 0x62, 0x22] @ ascii '':true} ] '')
     = Inr (JArr [JObj [(ascii ''1'', JArr [JStr [0x41, 0x0A], JNull]), (ascii ''b'', JBool True)]])"
  by code_simp

lemma JSON_parse_rejects:
  "JSON_parse id (ascii ''[1,]'') = Inl SyntaxError"
  "JSON_parse id (ascii ''01'') = Inl SyntaxError"
  "JSON_parse id (ascii ''undefined'') = Inl SyntaxError"
  "JSON_parse id (ascii ''[] []'') = Inl SyntaxError"
  by code_simp+

text \<open>
  Products of Numbers: the two nearest values are equally far from \<open>2 ^ 53 + 1\<close> and
  from \<open>2 ^ 53 + 3\<close>, and the one with the even significand is taken.
\<close>

lemma round_double_examples:
  "round_double (six_tenths * 5) = 3"
  "round_double (3752999689475413 / 2 ^ 52 * 6) = 5"
  "round_double (1 / 3) = 6004799503160661 / 2 ^ 54"
  "round_double (2 ^ 53 + 1) = 2 ^ 53"
  "round_double (2 ^ 53 + 3) = 2 ^ 53 + 4"
  by (simp_all add: six_tenths_def round_double_def ulp_def exponent_def compute_bitlen
      round_half_even_def)

end
